theory Spec2Isabelle
  imports Main "HOL-Library.Word" "HOL-Library.Sublist"
begin

unbundle bit_operations_syntax

section \<open>Common types\<close>

text \<open>
  \<open>size_t\<close> is the 64-bit unsigned integer of the platforms the header supports; all its
  arithmetic wraps modulo \<open>2 ^ 64\<close>. A C \<open>char\<close> is a HOL \<open>char\<close> (one byte).
  A failed \<open>assert\<close>, an access outside an allocated block, a null dereference and a
  signed overflow end the run; each one is a value of \<open>error\<close>. \<open>Diverges\<close> stands for
  a loop that has stopped advancing and would never return.
\<close>

type_synonym size_t = "64 word"

datatype error = AssertFailed string | OutOfBounds | NullPointer | SignedOverflow | Diverges

section \<open>Memory allocation\<close>

text \<open>
  \<open>Malloc\<close> asserts \<open>size > 0\<close> and returns a block of \<open>size\<close> bytes whose content is
  indeterminate: the parameter \<open>junk\<close> gives the bytes found there. The system allocator
  is taken to deliver every block it is asked for.
\<close>

definition Malloc :: "(nat \<Rightarrow> char) \<Rightarrow> size_t \<Rightarrow> error + char list" where
  "Malloc junk n =
     (if \<not> n > 0 then Inl (AssertFailed ''Malloc: size cant be negative'')
      else Inr (map junk [0..<unat n]))"

section \<open>Arena\<close>

text \<open>
  A chunk is its capacity field and its inline buffer. The chain of chunks hanging off
  \<open>root\<close> through the \<open>next\<close> fields is the list \<open>chunks\<close>: the chunk at index \<open>i\<close>
  has the chunk at index \<open>i + 1\<close> as its \<open>next\<close>, and the last one has \<open>next = NULL\<close>.
  A pointer to a chunk is its index; \<open>None\<close> is \<open>NULL\<close>.
\<close>

record ArenaChunk =
  cap :: size_t
  buffer :: "char list"

record Arena =
  chunks :: "ArenaChunk list"
  current :: "nat option"
  offset :: size_t
  root :: "nat option"
  chunkSize :: size_t

text \<open>A pointer into arena memory: the chunk and the byte position in its buffer.\<close>

type_synonym ptr = "nat \<times> nat"

text \<open>\<open>sizeof(__ArenaChunk)\<close>: the \<open>next\<close> pointer and the \<open>cap\<close> field, 8 bytes each.\<close>

definition sizeof_ArenaChunk :: size_t where
  "sizeof_ArenaChunk = 16"

text \<open>
  The \<open>while (next)\<close> loop of \<open>__ArenaNextChunk\<close>: \<open>cur\<close> is \<open>arena->current\<close>,
  \<open>nxt\<close> the index of \<open>next\<close> (an index past the end of the chain is \<open>NULL\<close>). The
  result is the new \<open>arena->current\<close> and whether the loop returned early on a chunk
  with \<open>cap > bytes\<close>.
\<close>

function ArenaNextChunk_walk ::
  "ArenaChunk list \<Rightarrow> size_t \<Rightarrow> nat option \<Rightarrow> nat \<Rightarrow> nat option \<times> bool" where
  "ArenaNextChunk_walk cs bytes cur nxt =
     (if nxt < length cs then
        (if cap (cs ! nxt) > bytes then (Some nxt, True)
         else ArenaNextChunk_walk cs bytes (Some nxt) (nxt + 1))
      else (cur, False))"
  by pat_completeness auto
termination
  by (relation "measure (\<lambda>(cs, bytes, cur, nxt). length cs - nxt)") auto

declare ArenaNextChunk_walk.simps [simp del]

text \<open>
  \<open>__ArenaNextChunk\<close>. After the walk found nothing, \<open>arena->current\<close> is the tail of the
  chain (or \<open>NULL\<close> in \<open>ArenaCreate\<close>, where the chain is empty), so linking the fresh
  chunk behind it appends to the list. The block is \<open>sizeof(__ArenaChunk) + bytes\<close> bytes,
  the buffer is what follows the header.
\<close>

definition ArenaNextChunk :: "(nat \<Rightarrow> char) \<Rightarrow> Arena \<Rightarrow> size_t \<Rightarrow> error + Arena" where
  "ArenaNextChunk junk arena bytes =
     (let nxt = (case current arena of Some c \<Rightarrow> c + 1 | None \<Rightarrow> length (chunks arena))
      in case ArenaNextChunk_walk (chunks arena) bytes (current arena) nxt of
           (cur, True) \<Rightarrow> Inr (arena\<lparr>current := cur\<rparr>)
         | (cur, False) \<Rightarrow>
             (case Malloc junk (sizeof_ArenaChunk + bytes) of
                Inl e \<Rightarrow> Inl e
              | Inr block \<Rightarrow>
                  if length block < unat sizeof_ArenaChunk then Inl OutOfBounds
                  else Inr (arena\<lparr>chunks := chunks arena @
                                      [\<lparr>cap = bytes, buffer = drop (unat sizeof_ArenaChunk) block\<rparr>],
                                   current := Some (length (chunks arena))\<rparr>)))"

text \<open>\<open>memset(p, v, n)\<close> on arena memory; writing outside the chunk's buffer is a fault.\<close>

definition memset_arena :: "Arena \<Rightarrow> ptr \<Rightarrow> char \<Rightarrow> size_t \<Rightarrow> error + Arena" where
  "memset_arena arena p v n =
     (case p of (c, off) \<Rightarrow>
        if c < length (chunks arena) \<and> off + unat n \<le> length (buffer (chunks arena ! c)) then
          (let ch = chunks arena ! c;
               buf = take off (buffer ch) @ replicate (unat n) v @ drop (off + unat n) (buffer ch)
           in Inr (arena\<lparr>chunks := (chunks arena)[c := ch\<lparr>buffer := buf\<rparr>]\<rparr>))
        else Inl OutOfBounds)"

text \<open>The \<open>n\<close> bytes found at a pointer.\<close>

definition region_bytes :: "Arena \<Rightarrow> ptr \<Rightarrow> nat \<Rightarrow> char list" where
  "region_bytes arena p n = (case p of (c, off) \<Rightarrow> take n (drop off (buffer (chunks arena ! c))))"

text \<open>
  \<open>ArenaAllocAligned\<close>. \<open>tail\<close> and \<open>aligned\<close> are \<open>intptr_t\<close> in the source; the
  conversions between \<open>size_t\<close> and \<open>intptr_t\<close> keep the 64 bits, and the sum
  \<open>arena->offset + al - arena->offset\<close> is computed in \<open>size_t\<close>, so both are kept as
  64-bit words here. The returned pointer is \<open>buffer + aligned\<close> in the current chunk, or
  the start of the buffer of the chunk \<open>__ArenaNextChunk\<close> moved to.
\<close>

definition ArenaAllocAligned ::
  "(nat \<Rightarrow> char) \<Rightarrow> Arena \<Rightarrow> size_t \<Rightarrow> size_t \<Rightarrow> error + (Arena \<times> ptr)" where
  "ArenaAllocAligned junk arena sz al =
     (let tail = offset arena AND (al - 1);
          aligned = (if tail \<noteq> 0 then offset arena + al - offset arena else offset arena);
          arena1 = arena\<lparr>offset := aligned + sz\<rparr>
      in case current arena1 of
           None \<Rightarrow> Inl NullPointer
         | Some c \<Rightarrow>
             if \<not> c < length (chunks arena1) then Inl OutOfBounds
             else
               (case (if offset arena1 > cap (chunks arena1 ! c) then
                        (case ArenaNextChunk junk arena1
                                (if sz > chunkSize arena1 then sz else chunkSize arena1) of
                           Inl e \<Rightarrow> Inl e
                         | Inr arena2 \<Rightarrow>
                             (case current arena2 of
                                None \<Rightarrow> Inl NullPointer
                              | Some c2 \<Rightarrow> Inr (arena2, (c2, 0))))
                      else Inr (arena1, (c, unat aligned))) of
                  Inl e \<Rightarrow> Inl e
                | Inr (arena3, result) \<Rightarrow>
                    if sz \<noteq> 0 then
                      (case memset_arena arena3 result (CHR 0x00) sz of
                         Inl e \<Rightarrow> Inl e
                       | Inr arena4 \<Rightarrow> Inr (arena4, result))
                    else Inr (arena3, result)))"

definition ArenaAllocChars :: "(nat \<Rightarrow> char) \<Rightarrow> Arena \<Rightarrow> size_t \<Rightarrow> error + (Arena \<times> ptr)" where
  "ArenaAllocChars junk arena count = ArenaAllocAligned junk arena count 1"

definition ArenaReset :: "Arena \<Rightarrow> Arena" where
  "ArenaReset arena = arena\<lparr>current := root arena, offset := 0\<rparr>"

text \<open>
  \<open>ArenaCreate\<close>: the control block is zeroed (all pointers \<open>NULL\<close>, no chunk yet), the
  chunk size stored, the first chunk made and recorded as root.
\<close>

definition ArenaCreate :: "(nat \<Rightarrow> char) \<Rightarrow> size_t \<Rightarrow> error + Arena" where
  "ArenaCreate junk chunkSize' =
     (let res = \<lparr>chunks = [], current = None, offset = 0, root = None, chunkSize = 0\<rparr>;
          res1 = res\<lparr>chunkSize := chunkSize'\<rparr>
      in case ArenaNextChunk junk res1 chunkSize' of
           Inl e \<Rightarrow> Inl e
         | Inr res2 \<Rightarrow> Inr (res2\<lparr>root := current res2\<rparr>))"

section \<open>Generic vector\<close>

text \<open>
  \<open>VEC_TYPE(typeName, valueType)\<close>: a data pointer and two \<open>i32\<close> fields. The block
  behind \<open>data\<close> is a list of slots, \<open>None\<close> for a slot never written; the empty list
  is the \<open>NULL\<close> of a zero-initialised vector. The \<open>i32\<close> fields are integers, and a
  product that leaves the \<open>i32\<close> range is a signed overflow, an error.
\<close>

record 'a Vec =
  data_V :: "'a option list"
  length_V :: int
  capacity_V :: int

definition INT32_MAX :: int where
  "INT32_MAX = 2147483647"

definition Vec_zero :: "'a Vec" where
  "Vec_zero = \<lparr>data_V = [], length_V = 0, capacity_V = 0\<rparr>"

text \<open>
  \<open>Realloc(block, n * sizeof(*data))\<close>, in slots: the element size is positive, so the
  byte count is positive exactly when \<open>n\<close> is, and a negative \<open>n\<close> converts to a byte
  count no allocator serves, which trips the second assertion. The old content is kept
  up to the new size; new slots are unwritten.
\<close>

definition Realloc :: "'a option list \<Rightarrow> int \<Rightarrow> error + 'a option list" where
  "Realloc block n =
     (if n = 0 then Inl (AssertFailed ''Realloc: size cant be negative'')
      else if n < 0 then
        Inl (AssertFailed ''Realloc: failed, returned address should never be NULL'')
      else Inr (take (nat n) block @ replicate (nat n - length block) None))"

text \<open>
  \<open>VecPush(vector, value)\<close>. The result is the vector after the push and whether
  \<open>Realloc\<close> was called. The macro's value, the address of the slot written, is slot
  \<open>length - 1\<close> of the result.
\<close>

definition VecPush :: "'a Vec \<Rightarrow> 'a \<Rightarrow> error + ('a Vec \<times> bool)" where
  "VecPush vector v =
     (if \<not> length_V vector \<le> capacity_V vector then
        Inl (AssertFailed ''VecPush: Possible memory corruption or vector not initialized'')
      else
        (case (if length_V vector \<ge> capacity_V vector then
                 (let capacity' = (if capacity_V vector = 0 then 128 else capacity_V vector * 2)
                  in if capacity' > INT32_MAX \<or> capacity' < - INT32_MAX - 1 then Inl SignedOverflow
                     else (case Realloc (data_V vector) capacity' of
                             Inl e \<Rightarrow> Inl e
                           | Inr block \<Rightarrow>
                               Inr (vector\<lparr>capacity_V := capacity', data_V := block\<rparr>, True)))
               else Inr (vector, False)) of
           Inl e \<Rightarrow> Inl e
         | Inr (vector1, reallocated) \<Rightarrow>
             if 0 \<le> length_V vector1 \<and> nat (length_V vector1) < length (data_V vector1) then
               if length_V vector1 + 1 > INT32_MAX then Inl SignedOverflow
               else Inr (vector1\<lparr>data_V := (data_V vector1)[nat (length_V vector1) := Some v],
                                 length_V := length_V vector1 + 1\<rparr>, reallocated)
             else Inl OutOfBounds))"

text \<open>The live elements, slots \<open>0\<close> to \<open>length - 1\<close>, in order.\<close>

definition Vec_elems :: "'a Vec \<Rightarrow> 'a list" where
  "Vec_elems vector = map the (take (nat (length_V vector)) (data_V vector))"

text \<open>
  Pushing the values of a list one after the other; the second component collects, for
  every \<open>Realloc\<close> call, the capacity before and after it.
\<close>

fun VecPush_all :: "'a Vec \<Rightarrow> 'a list \<Rightarrow> error + ('a Vec \<times> (int \<times> int) list)" where
  "VecPush_all vector [] = Inr (vector, [])"
| "VecPush_all vector (v # vs) =
     (case VecPush vector v of
        Inl e \<Rightarrow> Inl e
      | Inr (vector', reallocated) \<Rightarrow>
          (case VecPush_all vector' vs of
             Inl e \<Rightarrow> Inl e
           | Inr (vector'', log) \<Rightarrow>
               Inr (vector'',
                    (if reallocated then [(capacity_V vector, capacity_V vector')] else []) @ log)))"

text \<open>
  The invariant of a vector in use: \<open>0 \<le> length \<le> capacity\<close>, and the block behind
  \<open>data\<close> has \<open>capacity\<close> slots.
\<close>

definition Vec_wf :: "'a Vec \<Rightarrow> bool" where
  "Vec_wf vector =
     (0 \<le> length_V vector \<and> length_V vector \<le> capacity_V vector \<and>
      length (data_V vector) = nat (capacity_V vector))"

text \<open>
  A vector with a function applied to every value stored in it. A push does not look at
  the values it stores, so it commutes with this.
\<close>

definition Vec_map :: "('a \<Rightarrow> 'b) \<Rightarrow> 'a Vec \<Rightarrow> 'b Vec" where
  "Vec_map f vector =
     \<lparr>data_V = map (map_option f) (data_V vector), length_V = length_V vector,
      capacity_V = capacity_V vector\<rparr>"

section \<open>String\<close>

text \<open>
  A \<open>char *\<close> is \<open>NULL\<close>, or a pointer into the buffer of a chunk of the arena (the
  chunk and the position in its buffer), or a pointer to an object outside the chunks of
  the arena (a literal, a buffer of the caller). No arena function reaches an object
  outside the chunks, so such a pointer is the bytes from it to the end of its object.
  A String is the struct \<open>{length, data}\<close>.
\<close>

datatype cptr = Null | Outside "char list" | Inside ptr

record String =
  length_S :: size_t
  data_S :: cptr

type_synonym StringVector = "String Vec"

definition ptr_add :: "cptr \<Rightarrow> nat \<Rightarrow> cptr" where
  "ptr_add p i =
     (case p of
        Null \<Rightarrow> Null
      | Outside bytes \<Rightarrow> Outside (drop i bytes)
      | Inside (c, off) \<Rightarrow> Inside (c, off + i))"

text \<open>
  Memory is read and written through \<open>reach\<close> and \<open>poke\<close>. \<open>reach\<close> is the bytes
  from a pointer to the end of the object it points into; for a pointer into the arena
  the object is the buffer of the chunk, whatever allocations lie in it. \<open>poke\<close> stores
  bytes from the pointer on, as many as \<open>reach\<close> delivers; for an object outside the
  arena the pointer returned carries them.
\<close>

definition reach :: "Arena \<Rightarrow> cptr \<Rightarrow> error + char list" where
  "reach arena p =
     (case p of
        Null \<Rightarrow> Inl NullPointer
      | Outside bytes \<Rightarrow> Inr bytes
      | Inside (c, off) \<Rightarrow>
          if c < length (chunks arena) \<and> off \<le> length (buffer (chunks arena ! c))
          then Inr (drop off (buffer (chunks arena ! c)))
          else Inl OutOfBounds)"

definition poke :: "Arena \<Rightarrow> cptr \<Rightarrow> char list \<Rightarrow> Arena \<times> cptr" where
  "poke arena p bytes =
     (case p of
        Null \<Rightarrow> (arena, Null)
      | Outside old \<Rightarrow> (arena, Outside bytes)
      | Inside (c, off) \<Rightarrow>
          (arena\<lparr>chunks := (chunks arena)
              [c := (chunks arena ! c)\<lparr>buffer := take off (buffer (chunks arena ! c)) @ bytes\<rparr>]\<rparr>,
           Inside (c, off)))"

text \<open>The \<open>n\<close> bytes at a pointer, and the bytes of a String: its first \<open>length\<close> bytes.\<close>

definition bytes_at :: "Arena \<Rightarrow> cptr \<Rightarrow> nat \<Rightarrow> char list" where
  "bytes_at arena p n = (case reach arena p of Inl e \<Rightarrow> [] | Inr bytes \<Rightarrow> take n bytes)"

definition String_bytes :: "Arena \<Rightarrow> String \<Rightarrow> char list" where
  "String_bytes arena str = bytes_at arena (data_S str) (unat (length_S str))"

text \<open>
  The macro \<open>S("...")\<close>: the literal's bytes with its terminator, outside the arena, and
  its length.
\<close>

definition S_literal :: "string \<Rightarrow> String" where
  "S_literal str = \<lparr>length_S = of_nat (length str), data_S = Outside (str @ [CHR 0x00])\<rparr>"

subsection \<open>The C library functions used\<close>

text \<open>
  First on the bytes of the objects: \<open>memcpy\<close>, \<open>memset\<close> and \<open>memcmp\<close> touch
  exactly \<open>n\<close> bytes of each object; an object shorter than that is an access out of
  bounds. With \<open>n = 0\<close> nothing is touched, whatever the pointers are. \<open>memcpy\<close> reads
  the source bytes and then writes them, which is what a forward copy does when the
  destination does not start behind the source.
\<close>

definition memcpy_bytes :: "char list \<Rightarrow> char list option \<Rightarrow> size_t \<Rightarrow> error + char list" where
  "memcpy_bytes dest src n =
     (if n = 0 then Inr dest
      else case src of
             None \<Rightarrow> Inl NullPointer
           | Some bytes \<Rightarrow>
               if unat n \<le> length bytes \<and> unat n \<le> length dest
               then Inr (take (unat n) bytes @ drop (unat n) dest)
               else Inl OutOfBounds)"

definition memset_bytes :: "char list \<Rightarrow> char \<Rightarrow> size_t \<Rightarrow> error + char list" where
  "memset_bytes dest v n =
     (if unat n \<le> length dest then Inr (replicate (unat n) v @ drop (unat n) dest)
      else Inl OutOfBounds)"

fun memcmp_bytes :: "char list \<Rightarrow> char list \<Rightarrow> int" where
  "memcmp_bytes (x # xs) (y # ys) =
     (if x = y then memcmp_bytes xs ys
      else if (of_char x :: nat) < of_char y then - 1 else 1)"
| "memcmp_bytes xs ys = 0"

definition addNullTerminator_bytes :: "char list \<Rightarrow> size_t \<Rightarrow> error + char list" where
  "addNullTerminator_bytes str len =
     (if unat len < length str then Inr (str[unat len := CHR 0x00]) else Inl OutOfBounds)"

definition EINVAL :: int where
  "EINVAL = 22"

text \<open>
  \<open>memcpy_s\<close> as the header defines it where the platform has none, on the bytes of a
  destination that is not \<open>NULL\<close>.
\<close>

definition memcpy_s_bytes ::
  "char list \<Rightarrow> size_t \<Rightarrow> char list option \<Rightarrow> size_t \<Rightarrow> error + (int \<times> char list)" where
  "memcpy_s_bytes dest destSize src count' =
     (if src = None \<or> destSize < count' then
        (case memset_bytes dest (CHR 0x00) destSize of
           Inl e \<Rightarrow> Inl e
         | Inr dest' \<Rightarrow> Inr (EINVAL, dest'))
      else
        (case memcpy_bytes dest src count' of
           Inl e \<Rightarrow> Inl e
         | Inr dest' \<Rightarrow> Inr (0, dest')))"

text \<open>
  Then on memory: the objects behind the pointers are read, the function on their bytes
  applied, and the destination stored. The result is the memory afterwards and the
  destination pointer.
\<close>

definition memcpy :: "Arena \<Rightarrow> cptr \<Rightarrow> cptr \<Rightarrow> size_t \<Rightarrow> error + (Arena \<times> cptr)" where
  "memcpy arena dest src n =
     (if n = 0 then Inr (arena, dest)
      else case reach arena src of
             Inl e \<Rightarrow> Inl e
           | Inr bytes \<Rightarrow>
               (case reach arena dest of
                  Inl e \<Rightarrow> Inl e
                | Inr d \<Rightarrow>
                    (case memcpy_bytes d (Some bytes) n of
                       Inl e \<Rightarrow> Inl e
                     | Inr d' \<Rightarrow> Inr (poke arena dest d'))))"

definition memset :: "Arena \<Rightarrow> cptr \<Rightarrow> char \<Rightarrow> size_t \<Rightarrow> error + (Arena \<times> cptr)" where
  "memset arena dest v n =
     (if n = 0 then Inr (arena, dest)
      else case reach arena dest of
             Inl e \<Rightarrow> Inl e
           | Inr d \<Rightarrow>
               (case memset_bytes d v n of
                  Inl e \<Rightarrow> Inl e
                | Inr d' \<Rightarrow> Inr (poke arena dest d')))"

definition memcmp :: "Arena \<Rightarrow> cptr \<Rightarrow> cptr \<Rightarrow> size_t \<Rightarrow> error + int" where
  "memcmp arena p q n =
     (if n = 0 then Inr 0
      else case reach arena p of
             Inl e \<Rightarrow> Inl e
           | Inr xs \<Rightarrow>
               (case reach arena q of
                  Inl e \<Rightarrow> Inl e
                | Inr ys \<Rightarrow>
                    if unat n \<le> length xs \<and> unat n \<le> length ys
                    then Inr (memcmp_bytes (take (unat n) xs) (take (unat n) ys))
                    else Inl OutOfBounds))"

definition memcpy_s ::
  "Arena \<Rightarrow> cptr \<Rightarrow> size_t \<Rightarrow> cptr \<Rightarrow> size_t \<Rightarrow> error + (int \<times> Arena \<times> cptr)" where
  "memcpy_s arena dest destSize src count' =
     (if dest = Null then Inr (EINVAL, arena, dest)
      else if src = Null \<or> destSize < count' then
        (case memset arena dest (CHR 0x00) destSize of
           Inl e \<Rightarrow> Inl e
         | Inr (arena', dest') \<Rightarrow> Inr (EINVAL, arena', dest'))
      else
        (case memcpy arena dest src count' of
           Inl e \<Rightarrow> Inl e
         | Inr (arena', dest') \<Rightarrow> Inr (0, arena', dest')))"

subsection \<open>String functions\<close>

definition addNullTerminator :: "Arena \<Rightarrow> cptr \<Rightarrow> size_t \<Rightarrow> error + (Arena \<times> cptr)" where
  "addNullTerminator arena str len =
     (case reach arena str of
        Inl e \<Rightarrow> Inl e
      | Inr bytes \<Rightarrow>
          (case addNullTerminator_bytes bytes len of
             Inl e \<Rightarrow> Inl e
           | Inr bytes' \<Rightarrow> Inr (poke arena str bytes')))"

definition StrIsNull :: "String \<Rightarrow> bool" where
  "StrIsNull str = (data_S str = Null)"

text \<open>
  \<open>StrNewSize\<close>: the region is allocated (and zeroed) first, then the source is read
  from memory as it is after that, copied, and the terminator written.
\<close>

definition StrNewSize ::
  "(nat \<Rightarrow> char) \<Rightarrow> Arena \<Rightarrow> cptr \<Rightarrow> size_t \<Rightarrow> error + (Arena \<times> String)" where
  "StrNewSize junk arena str len =
     (let memorySize = 1 * len + 1
      in case ArenaAllocChars junk arena memorySize of
           Inl e \<Rightarrow> Inl e
         | Inr (arena1, p) \<Rightarrow>
             (let allocatedString = Inside p
              in case memcpy arena1 allocatedString str memorySize of
                   Inl e \<Rightarrow> Inl e
                 | Inr (arena2, dest) \<Rightarrow>
                     (case addNullTerminator arena2 allocatedString len of
                        Inl e \<Rightarrow> Inl e
                      | Inr (arena3, dest') \<Rightarrow>
                          Inr (arena3, \<lparr>length_S = len, data_S = allocatedString\<rparr>))))"

definition StrConcat ::
  "(nat \<Rightarrow> char) \<Rightarrow> Arena \<Rightarrow> String \<Rightarrow> String \<Rightarrow> error + (Arena \<times> String)" where
  "StrConcat junk arena string1 string2 =
     (if StrIsNull string1 then
        (let len = length_S string2;
             memorySize = 1 * len
         in case ArenaAllocChars junk arena memorySize of
              Inl e \<Rightarrow> Inl e
            | Inr (arena1, p) \<Rightarrow>
                (let allocatedString = Inside p
                 in case memcpy_s arena1 allocatedString memorySize
                           (data_S string2) (length_S string2) of
                      Inl e \<Rightarrow> Inl e
                    | Inr (rc, arena2, dest) \<Rightarrow>
                        (case addNullTerminator arena2 allocatedString len of
                           Inl e \<Rightarrow> Inl e
                         | Inr (arena3, dest') \<Rightarrow>
                             Inr (arena3, \<lparr>length_S = len, data_S = allocatedString\<rparr>))))
      else if StrIsNull string2 then
        (let len = length_S string1;
             memorySize = 1 * len
         in case ArenaAllocChars junk arena memorySize of
              Inl e \<Rightarrow> Inl e
            | Inr (arena1, p) \<Rightarrow>
                (let allocatedString = Inside p
                 in case memcpy_s arena1 allocatedString memorySize
                           (data_S string1) (length_S string1) of
                      Inl e \<Rightarrow> Inl e
                    | Inr (rc, arena2, dest) \<Rightarrow>
                        (case addNullTerminator arena2 allocatedString len of
                           Inl e \<Rightarrow> Inl e
                         | Inr (arena3, dest') \<Rightarrow>
                             Inr (arena3, \<lparr>length_S = len, data_S = allocatedString\<rparr>))))
      else
        (let len = length_S string1 + length_S string2;
             memorySize = 1 * len + 1
         in case ArenaAllocChars junk arena memorySize of
              Inl e \<Rightarrow> Inl e
            | Inr (arena1, p) \<Rightarrow>
                (let allocatedString = Inside p
                 in case memcpy_s arena1 allocatedString memorySize
                           (data_S string1) (length_S string1) of
                      Inl e \<Rightarrow> Inl e
                    | Inr (rc1, arena2, dest1) \<Rightarrow>
                        (case memcpy_s arena2 (ptr_add allocatedString (unat (length_S string1)))
                                memorySize (data_S string2) (length_S string2) of
                           Inl e \<Rightarrow> Inl e
                         | Inr (rc2, arena3, dest2) \<Rightarrow>
                             (case addNullTerminator arena3 allocatedString len of
                                Inl e \<Rightarrow> Inl e
                              | Inr (arena4, dest') \<Rightarrow>
                                  Inr (arena4, \<lparr>length_S = len, data_S = allocatedString\<rparr>))))))"

definition StrEqual :: "Arena \<Rightarrow> String \<Rightarrow> String \<Rightarrow> error + bool" where
  "StrEqual arena string1 string2 =
     (if length_S string1 \<noteq> length_S string2 then Inr False
      else case memcmp arena (data_S string1) (data_S string2) (length_S string1) of
             Inl e \<Rightarrow> Inl e
           | Inr r \<Rightarrow> if r \<noteq> 0 then Inr False else Inr True)"

text \<open>
  \<open>StrSlice\<close>. \<open>start\<close> and \<open>end\<close> are \<open>size_t\<close>: the comparisons with 0 are the
  unsigned ones of the source.
\<close>

definition StrSlice ::
  "(nat \<Rightarrow> char) \<Rightarrow> Arena \<Rightarrow> String \<Rightarrow> size_t \<Rightarrow> size_t \<Rightarrow> error + (Arena \<times> String)" where
  "StrSlice junk arena str start end' =
     (if \<not> start \<ge> 0 then Inl (AssertFailed ''StrSlice: start index must be non-negative'')
      else if \<not> start \<le> length_S str then
        Inl (AssertFailed ''StrSlice: start index out of bounds'')
      else
        (let end1 = (if end' < 0 then length_S str + end' else end')
         in if \<not> end1 \<ge> start then
              Inl (AssertFailed ''StrSlice: end must be greater than or equal to start'')
            else if \<not> end1 \<le> length_S str then
              Inl (AssertFailed ''StrSlice: end index out of bounds'')
            else
              (let len = end1 - start
               in StrNewSize junk arena (ptr_add (data_S str) (unat start)) len)))"

subsection \<open>Splitting\<close>

text \<open>
  The inner \<open>for\<close> loop of \<open>StrSplit\<close>: \<open>search\<close> runs from \<open>curr\<close> while
  \<open>search <= end - delimiter->length\<close>, and stops at the first position where
  \<open>memcmp\<close> finds the delimiter. Pointers into the string are positions from
  \<open>str->data\<close>; the result is \<open>match\<close>, \<open>None\<close> for \<open>NULL\<close>.
\<close>

function StrSplit_search ::
  "Arena \<Rightarrow> cptr \<Rightarrow> nat \<Rightarrow> String \<Rightarrow> nat \<Rightarrow> error + nat option" where
  "StrSplit_search arena data end' delimiter search =
     (if int search \<le> int end' - int (unat (length_S delimiter)) then
        (case memcmp arena (ptr_add data search) (data_S delimiter) (length_S delimiter) of
           Inl e \<Rightarrow> Inl e
         | Inr r \<Rightarrow>
             if r = 0 then Inr (Some search)
             else StrSplit_search arena data end' delimiter (search + 1))
      else Inr None)"
  by pat_completeness auto
termination
proof (relation "measure (\<lambda>(arena, data, end', delimiter, search). end' + 1 - search)",
    goal_cases)
  case 1
  show ?case by simp
next
  case (2 arena data end' delimiter search r)
  have "0 \<le> int (unat (length_S delimiter))" by simp
  with 2(1) have "search \<le> end'" by linarith
  then show ?case by simp
qed

declare StrSplit_search.simps [simp del]

text \<open>
  The \<open>while (curr < end)\<close> loop. Each round pushes one token and either stops (no match)
  or continues behind the match. The source enters this loop only with a delimiter that
  is not empty, so \<open>curr\<close> moves forward in every round; a round that would not move it
  is where the loop would spin for ever, and the model ends there with \<open>Diverges\<close>.
\<close>

function StrSplit_loop ::
  "(nat \<Rightarrow> char) \<Rightarrow> Arena \<Rightarrow> String \<Rightarrow> String \<Rightarrow> nat \<Rightarrow> StringVector
     \<Rightarrow> error + (Arena \<times> StringVector)" where
  "StrSplit_loop junk arena str delimiter curr' result =
     (let end' = unat (length_S str)
      in if curr' < end' then
           (case StrSplit_search arena (data_S str) end' delimiter curr' of
              Inl e \<Rightarrow> Inl e
            | Inr None \<Rightarrow>
                (case StrNewSize junk arena (ptr_add (data_S str) curr') (of_nat (end' - curr')) of
                   Inl e \<Rightarrow> Inl e
                 | Inr (arena', currString) \<Rightarrow>
                     (case VecPush result currString of
                        Inl e \<Rightarrow> Inl e
                      | Inr (result', r) \<Rightarrow> Inr (arena', result')))
            | Inr (Some match) \<Rightarrow>
                (case StrNewSize junk arena (ptr_add (data_S str) curr') (of_nat (match - curr')) of
                   Inl e \<Rightarrow> Inl e
                 | Inr (arena', currString) \<Rightarrow>
                     (case VecPush result currString of
                        Inl e \<Rightarrow> Inl e
                      | Inr (result', r) \<Rightarrow>
                          if match + unat (length_S delimiter) \<le> curr' then Inl Diverges
                          else StrSplit_loop junk arena' str delimiter
                                 (match + unat (length_S delimiter)) result')))
         else Inr (arena, result))"
  by pat_completeness auto
termination
  by (relation "measure (\<lambda>(junk, arena, str, delimiter, curr', result).
                  unat (length_S str) - curr')") auto

declare StrSplit_loop.simps [simp del]

text \<open>The loop for the empty delimiter: one token of one byte per byte of the string.\<close>

function StrSplit_each ::
  "(nat \<Rightarrow> char) \<Rightarrow> Arena \<Rightarrow> String \<Rightarrow> nat \<Rightarrow> StringVector \<Rightarrow> error + (Arena \<times> StringVector)" where
  "StrSplit_each junk arena str i result =
     (if i < unat (length_S str) then
        (case StrNewSize junk arena (ptr_add (data_S str) i) 1 of
           Inl e \<Rightarrow> Inl e
         | Inr (arena', currString) \<Rightarrow>
             (case VecPush result currString of
                Inl e \<Rightarrow> Inl e
              | Inr (result', r) \<Rightarrow> StrSplit_each junk arena' str (i + 1) result'))
      else Inr (arena, result))"
  by pat_completeness auto
termination
  by (relation "measure (\<lambda>(junk, arena, str, i, result). unat (length_S str) - i)") auto

declare StrSplit_each.simps [simp del]

definition StrSplit ::
  "(nat \<Rightarrow> char) \<Rightarrow> Arena \<Rightarrow> String \<Rightarrow> String \<Rightarrow> error + (Arena \<times> StringVector)" where
  "StrSplit junk arena str delimiter =
     (if StrIsNull str then Inl (AssertFailed ''StrSplit: str should never be NULL'')
      else if StrIsNull delimiter then
        Inl (AssertFailed ''StrSplit: delimiter should never be NULL'')
      else if length_S delimiter = 0 then StrSplit_each junk arena str 0 Vec_zero
      else StrSplit_loop junk arena str delimiter 0 Vec_zero)"

text \<open>
  Joining tokens with a separator. The tokens of a split are read from memory as it is
  when \<open>StrSplit\<close> has returned; joining them uses the delimiter as it was when
  \<open>StrSplit\<close> was called.
\<close>

fun join_with :: "char list \<Rightarrow> char list list \<Rightarrow> char list" where
  "join_with d [] = []"
| "join_with d [t] = t"
| "join_with d (t # ts) = t @ d @ join_with d ts"

definition StrSplit_tokens ::
  "(nat \<Rightarrow> char) \<Rightarrow> Arena \<Rightarrow> String \<Rightarrow> String \<Rightarrow> error + char list list" where
  "StrSplit_tokens junk arena str delimiter =
     (case StrSplit junk arena str delimiter of
        Inl e \<Rightarrow> Inl e
      | Inr (arena', result) \<Rightarrow> Inr (map (String_bytes arena') (Vec_elems result)))"

definition StrSplit_rejoin ::
  "(nat \<Rightarrow> char) \<Rightarrow> Arena \<Rightarrow> String \<Rightarrow> String \<Rightarrow> error + char list" where
  "StrSplit_rejoin junk arena str delimiter =
     (case StrSplit_tokens junk arena str delimiter of
        Inl e \<Rightarrow> Inl e
      | Inr tokens \<Rightarrow> Inr (join_with (String_bytes arena delimiter) tokens))"

text \<open>
  What the tokens pushed from a position on have to do with the bytes \<open>rest\<close> from that
  position to the end: nothing is pushed for an empty rest; otherwise the tokens joined
  with the delimiter are the rest, or the rest without a delimiter at its very end.
\<close>

definition rejoins :: "char list \<Rightarrow> char list list \<Rightarrow> char list \<Rightarrow> bool" where
  "rejoins d ts rest =
     (if rest = [] then ts = []
      else ts \<noteq> [] \<and> (join_with d ts = rest \<or> join_with d ts @ d = rest))"

text \<open>The arena \<open>ArenaCreate(64)\<close> returns when fresh memory holds \<open>0xCD\<close>.\<close>

definition arena64 :: Arena where
  "arena64 =
     \<lparr>chunks = [\<lparr>cap = 64, buffer = replicate 64 (CHR 0xCD)\<rparr>], current = Some 0, offset = 0,
      root = Some 0, chunkSize = 64\<rparr>"

text \<open>
  That arena after \<open>StrNewSize(arena, "a,b,,c", 6)\<close>: the six bytes and the terminator
  at the start of the chunk, the offset behind them.
\<close>

definition arena64_abc :: Arena where
  "arena64_abc =
     \<lparr>chunks = [\<lparr>cap = 64,
                 buffer = ''a,b,,c'' @ [CHR 0x00] @ replicate 57 (CHR 0xCD)\<rparr>],
      current = Some 0, offset = 7, root = Some 0, chunkSize = 64\<rparr>"

subsection \<open>Trimming\<close>

definition isSpace :: "char \<Rightarrow> bool" where
  "isSpace character =
     (character = CHR '' '' \<or> character = CHR 0x0A \<or> character = CHR 0x09 \<or> character = CHR 0x0D)"

text \<open>
  The \<open>for\<close> loop of \<open>StrTrim\<close> over \<open>i < str->length\<close>. The pointers \<open>firstChar\<close>
  and \<open>lastChar\<close> are positions in the buffer of the string, \<open>None\<close> for \<open>NULL\<close>.
\<close>

function StrTrim_scan ::
  "char list \<Rightarrow> nat \<Rightarrow> nat \<Rightarrow> nat option \<Rightarrow> nat option \<Rightarrow> error + (nat option \<times> nat option)" where
  "StrTrim_scan buf len i firstChar lastChar =
     (if i < len then
        (if \<not> i < length buf then Inl OutOfBounds
         else if isSpace (buf ! i) then StrTrim_scan buf len (i + 1) firstChar lastChar
         else StrTrim_scan buf len (i + 1)
                (if firstChar = None then Some i else firstChar) (Some i))
      else Inr (firstChar, lastChar))"
  by pat_completeness auto
termination
  by (relation "measure (\<lambda>(buf, len, i, firstChar, lastChar). len - i)") auto

declare StrTrim_scan.simps [simp del]

text \<open>
  \<open>StrTrim\<close> touches one object only, the one behind \<open>str->data\<close>, and only after the
  test \<open>str->length == 0\<close>. \<open>StrTrim_buf\<close> is the rest of the function on the bytes
  \<open>buf\<close> of that object: it returns the new length and the bytes afterwards. The copy
  \<open>memcpy_s(str->data, str->length, firstChar, len)\<close> has its source inside the
  destination, at or behind its start.
\<close>

definition StrTrim_buf :: "size_t \<Rightarrow> char list \<Rightarrow> error + (size_t \<times> char list)" where
  "StrTrim_buf length' buf =
     (if length' = 1 then
        (if \<not> 0 < length buf then Inl OutOfBounds
         else if isSpace (buf ! 0) then Inr (0, buf[0 := CHR 0x00])
         else Inr (length', buf))
      else
        (case StrTrim_scan buf (unat length') 0 None None of
           Inl e \<Rightarrow> Inl e
         | Inr (Some firstChar, Some lastChar) \<Rightarrow>
             (let len = (of_nat (lastChar - firstChar) :: size_t) + 1
              in case memcpy_s_bytes buf length' (Some (drop firstChar buf)) len of
                   Inl e \<Rightarrow> Inl e
                 | Inr (rc, buf1) \<Rightarrow>
                     (case addNullTerminator_bytes buf1 len of
                        Inl e \<Rightarrow> Inl e
                      | Inr buf2 \<Rightarrow> Inr (len, buf2)))
         | Inr _ \<Rightarrow>
             (if \<not> 0 < length buf then Inl OutOfBounds
              else case addNullTerminator_bytes (buf[0 := CHR 0x00]) 0 of
                     Inl e \<Rightarrow> Inl e
                   | Inr buf1 \<Rightarrow> Inr (0, buf1))))"

text \<open>
  \<open>StrTrim\<close> rewrites the string in place: the result is the memory and the String
  afterwards.
\<close>

definition StrTrim :: "Arena \<Rightarrow> String \<Rightarrow> error + (Arena \<times> String)" where
  "StrTrim arena str =
     (if length_S str = 0 then Inr (arena, str)
      else case reach arena (data_S str) of
             Inl e \<Rightarrow> Inl e
           | Inr buf \<Rightarrow>
               (case StrTrim_buf (length_S str) buf of
                  Inl e \<Rightarrow> Inl e
                | Inr (length', buf') \<Rightarrow>
                    (case poke arena (data_S str) buf' of
                       (arena', data') \<Rightarrow> Inr (arena', \<lparr>length_S = length', data_S = data'\<rparr>))))"

text \<open>
  A String as the data model describes it: either the "no value" String, or a buffer that
  holds the \<open>length\<close> bytes and one more byte for the terminator.
\<close>

definition String_wf :: "Arena \<Rightarrow> String \<Rightarrow> bool" where
  "String_wf arena str =
     (if data_S str = Null then length_S str = 0
      else case reach arena (data_S str) of
             Inl e \<Rightarrow> False
           | Inr buf \<Rightarrow> unat (length_S str) < length buf)"

text \<open>What the loop keeps true of the two pointers.\<close>

definition trim_inv :: "char list \<Rightarrow> nat \<Rightarrow> nat option \<Rightarrow> nat option \<Rightarrow> bool" where
  "trim_inv buf i f l =
     (case (f, l) of
        (None, None) \<Rightarrow> True
      | (Some a, Some b) \<Rightarrow> a \<le> b \<and> b < i \<and> \<not> isSpace (buf ! a) \<and> \<not> isSpace (buf ! b)
      | _ \<Rightarrow> False)"

subsection \<open>Memory in use\<close>

text \<open>
  The \<open>n\<close> bytes at a pointer are in use when they are an object outside the arena, or
  lie in a chunk before the current one, or in the current chunk below the offset: that
  is where everything the arena has handed out since its creation or last reset lies as
  long as the offset only moves forward. \<open>keeps\<close> says that memory in use is still in
  use later and holds the same bytes. \<open>apart\<close> says that bytes do not reach into the
  region that starts at a position of a chunk.
\<close>

definition in_use :: "Arena \<Rightarrow> cptr \<Rightarrow> nat \<Rightarrow> bool" where
  "in_use arena p n =
     (case p of
        Null \<Rightarrow> False
      | Outside bytes \<Rightarrow> n \<le> length bytes
      | Inside (c, off) \<Rightarrow>
          c < length (chunks arena) \<and> off + n \<le> length (buffer (chunks arena ! c)) \<and>
          (case current arena of
             None \<Rightarrow> False
           | Some cur \<Rightarrow> c < cur \<or> (c = cur \<and> off + n \<le> unat (offset arena))))"

definition keeps :: "Arena \<Rightarrow> Arena \<Rightarrow> bool" where
  "keeps arena arena' =
     (\<forall>p n. in_use arena p n \<longrightarrow> in_use arena' p n \<and> bytes_at arena' p n = bytes_at arena p n)"

definition apart :: "cptr \<Rightarrow> nat \<Rightarrow> ptr \<Rightarrow> bool" where
  "apart p n q =
     (case p of
        Inside (c, off) \<Rightarrow> c \<noteq> fst q \<or> off + n \<le> snd q
      | _ \<Rightarrow> True)"

text \<open>
  Memory with the bytes \<open>seg\<close> stored at a position of a chunk, the other bytes as they
  are. Every write of the functions above into the arena has this form.
\<close>

definition store_seg :: "Arena \<Rightarrow> ptr \<Rightarrow> char list \<Rightarrow> Arena" where
  "store_seg arena q seg =
     (case q of (c, off) \<Rightarrow>
        arena\<lparr>chunks := (chunks arena)
          [c := (chunks arena ! c)
             \<lparr>buffer := take off (buffer (chunks arena ! c)) @ seg @
                        drop (off + length seg) (buffer (chunks arena ! c))\<rparr>]\<rparr>)"

text \<open>
  An arena in use: \<open>current\<close> points to a chunk of the chain, every chunk's buffer has
  the size its \<open>cap\<close> field says, and a block for a chunk of the configured size, header
  included, has a size that fits \<open>size_t\<close>.
\<close>

definition Arena_wf :: "Arena \<Rightarrow> bool" where
  "Arena_wf arena =
     ((case current arena of None \<Rightarrow> False | Some c \<Rightarrow> c < length (chunks arena)) \<and>
      list_all (\<lambda>ch. length (buffer ch) = unat (cap ch)) (chunks arena) \<and>
      unat (chunkSize arena) + 16 < 2 ^ 64)"

text \<open>The value \<open>ArenaAllocAligned\<close> computes for \<open>aligned\<close>.\<close>

definition aligned_offset :: "Arena \<Rightarrow> size_t \<Rightarrow> size_t" where
  "aligned_offset arena al =
     (if offset arena AND (al - 1) \<noteq> 0 then offset arena + al - offset arena
      else offset arena)"

subsection \<open>Running a sequence of requests\<close>

text \<open>
  A caller creating an arena and making one \<open>ArenaAllocAligned(size, align)\<close> call per
  entry of a list, keeping the pointers it got in order. \<open>arena_shape\<close> is what the
  scenarios look at: the capacities of the chunks of the chain, the current chunk and the
  offset.
\<close>

fun ArenaAllocAligned_seq ::
  "(nat \<Rightarrow> char) \<Rightarrow> Arena \<Rightarrow> (size_t \<times> size_t) list \<Rightarrow> error + (Arena \<times> ptr list)" where
  "ArenaAllocAligned_seq junk arena [] = Inr (arena, [])"
| "ArenaAllocAligned_seq junk arena ((sz, al) # reqs) =
     (case ArenaAllocAligned junk arena sz al of
        Inl e \<Rightarrow> Inl e
      | Inr (arena', p) \<Rightarrow>
          (case ArenaAllocAligned_seq junk arena' reqs of
             Inl e \<Rightarrow> Inl e
           | Inr (arena'', ps) \<Rightarrow> Inr (arena'', p # ps)))"

definition arena_shape :: "Arena \<Rightarrow> size_t list \<times> nat option \<times> size_t" where
  "arena_shape arena = (map cap (chunks arena), current arena, offset arena)"

definition arena_run ::
  "(nat \<Rightarrow> char) \<Rightarrow> size_t \<Rightarrow> (size_t \<times> size_t) list
     \<Rightarrow> error + ((size_t list \<times> nat option \<times> size_t) \<times> ptr list)" where
  "arena_run junk chunkSize' reqs =
     (case ArenaCreate junk chunkSize' of
        Inl e \<Rightarrow> Inl e
      | Inr arena \<Rightarrow>
          (case ArenaAllocAligned_seq junk arena reqs of
             Inl e \<Rightarrow> Inl e
           | Inr (arena', ps) \<Rightarrow> Inr (arena_shape arena', ps)))"

text \<open>Fresh memory holding the byte \<open>0xCD\<close> everywhere, for the concrete scenarios.\<close>

definition junk0 :: "nat \<Rightarrow> char" where
  "junk0 i = CHR 0xCD"


section \<open>Arena: what an allocation delivers\<close>

lemma ArenaNextChunk_walk_found:
  "ArenaNextChunk_walk cs bytes cur nxt = (cur', True) \<Longrightarrow>
   \<exists>k. cur' = Some k \<and> k < length cs \<and> bytes < cap (cs ! k)"
proof (induction cs bytes cur nxt rule: ArenaNextChunk_walk.induct)
  case (1 cs bytes cur nxt)
  show ?case
  proof (cases "nxt < length cs")
    case False
    with "1.prems" show ?thesis
      by (subst (asm) ArenaNextChunk_walk.simps) simp
  next
    case True
    show ?thesis
    proof (cases "bytes < cap (cs ! nxt)")
      case True
      with \<open>nxt < length cs\<close> "1.prems" show ?thesis
        by (subst (asm) ArenaNextChunk_walk.simps) auto
    next
      case False
      with \<open>nxt < length cs\<close> "1.prems"
      have "ArenaNextChunk_walk cs bytes (Some nxt) (nxt + 1) = (cur', True)"
        by (subst (asm) ArenaNextChunk_walk.simps) simp
      with "1.IH" \<open>nxt < length cs\<close> False show ?thesis by simp
    qed
  qed
qed

lemma ArenaNextChunk_ok:
  assumes wf: "Arena_wf arena" and room: "unat bytes + 16 < 2 ^ 64"
  shows "\<exists>arena' c. ArenaNextChunk junk arena bytes = Inr arena' \<and> Arena_wf arena' \<and>
           current arena' = Some c \<and> c < length (chunks arena') \<and>
           unat bytes \<le> length (buffer (chunks arena' ! c)) \<and>
           offset arena' = offset arena \<and> chunkSize arena' = chunkSize arena"
proof -
  define nxt where
    "nxt = (case current arena of Some c \<Rightarrow> c + 1 | None \<Rightarrow> length (chunks arena))"
  obtain cur found where w:
    "ArenaNextChunk_walk (chunks arena) bytes (current arena) nxt = (cur, found)"
    by (cases "ArenaNextChunk_walk (chunks arena) bytes (current arena) nxt") auto
  have all: "\<And>k. k < length (chunks arena) \<Longrightarrow>
                length (buffer (chunks arena ! k)) = unat (cap (chunks arena ! k))"
    using wf by (simp add: Arena_wf_def list_all_length)
  show ?thesis
  proof (cases found)
    case True
    with w have "ArenaNextChunk_walk (chunks arena) bytes (current arena) nxt = (cur, True)"
      by simp
    from ArenaNextChunk_walk_found [OF this]
    obtain k where k: "cur = Some k" "k < length (chunks arena)"
      "bytes < cap (chunks arena ! k)"
      by auto
    have "unat bytes \<le> length (buffer (chunks arena ! k))"
      using k all [of k] by (simp add: word_less_nat_alt)
    moreover have "ArenaNextChunk junk arena bytes = Inr (arena\<lparr>current := Some k\<rparr>)"
      using w True k by (simp add: ArenaNextChunk_def nxt_def [symmetric])
    moreover have "Arena_wf (arena\<lparr>current := Some k\<rparr>)"
      using wf k by (simp add: Arena_wf_def)
    ultimately show ?thesis using k by simp
  next
    case False
    have u: "unat (sizeof_ArenaChunk + bytes) = 16 + unat bytes"
      using room by (simp add: sizeof_ArenaChunk_def unat_word_ariths)
    then have pos: "0 < sizeof_ArenaChunk + bytes"
      by (simp add: word_less_nat_alt)
    define ch where
      "ch = \<lparr>cap = bytes, buffer = drop 16 (map junk [0..<16 + unat bytes])\<rparr>"
    define arena' where
      "arena' = arena\<lparr>chunks := chunks arena @ [ch], current := Some (length (chunks arena))\<rparr>"
    have "ArenaNextChunk junk arena bytes = Inr arena'"
      using w False pos u
      by (simp add: ArenaNextChunk_def nxt_def [symmetric] Malloc_def arena'_def ch_def
            sizeof_ArenaChunk_def)
    moreover have "Arena_wf arena'"
      using wf by (simp add: Arena_wf_def arena'_def ch_def)
    moreover have "unat bytes \<le> length (buffer (chunks arena' ! length (chunks arena)))"
      by (simp add: arena'_def ch_def)
    ultimately show ?thesis by (simp add: arena'_def)
  qed
qed

lemma memset_arena_ok:
  assumes wf: "Arena_wf arena" and c: "c < length (chunks arena)"
    and fit: "off + unat n \<le> length (buffer (chunks arena ! c))"
  shows "\<exists>arena'. memset_arena arena (c, off) v n = Inr arena' \<and> Arena_wf arena' \<and>
           offset arena' = offset arena \<and> chunkSize arena' = chunkSize arena \<and>
           region_bytes arena' (c, off) (unat n) = replicate (unat n) v"
proof -
  define ch where "ch = chunks arena ! c"
  define buf where
    "buf = take off (buffer ch) @ replicate (unat n) v @ drop (off + unat n) (buffer ch)"
  define arena' where "arena' = arena\<lparr>chunks := (chunks arena)[c := ch\<lparr>buffer := buf\<rparr>]\<rparr>"
  have len: "length buf = length (buffer ch)"
    using fit by (simp add: buf_def ch_def)
  have eq: "memset_arena arena (c, off) v n = Inr arena'"
    using c fit by (simp add: memset_arena_def arena'_def ch_def buf_def Let_def)
  have all: "\<And>k. k < length (chunks arena) \<Longrightarrow>
                length (buffer (chunks arena ! k)) = unat (cap (chunks arena ! k))"
    using wf by (simp add: Arena_wf_def list_all_length)
  have "Arena_wf arena'"
    using wf c len all
    by (auto simp: Arena_wf_def arena'_def list_all_length nth_list_update ch_def
          split: option.splits)
  moreover have "region_bytes arena' (c, off) (unat n) = replicate (unat n) v"
    using c fit by (simp add: region_bytes_def arena'_def buf_def ch_def)
  ultimately show ?thesis using eq by (simp add: arena'_def)
qed

lemma ArenaAllocAligned_ok:
  assumes wf: "Arena_wf arena" and room: "unat (aligned_offset arena al) + unat n + 16 < 2 ^ 64"
  shows "\<exists>arena' c off. ArenaAllocAligned junk arena n al = Inr (arena', (c, off)) \<and>
           Arena_wf arena' \<and> (off = 0 \<or> off = unat (aligned_offset arena al)) \<and>
           offset arena' = aligned_offset arena al + n \<and> chunkSize arena' = chunkSize arena \<and>
           region_bytes arena' (c, off) (unat n) = replicate (unat n) (CHR 0x00)"
proof -
  define a where "a = aligned_offset arena al"
  obtain c where c: "current arena = Some c" "c < length (chunks arena)"
    using wf by (auto simp: Arena_wf_def split: option.splits)
  define arena1 where "arena1 = arena\<lparr>offset := a + n\<rparr>"
  define bytes where "bytes = (if n > chunkSize arena then n else chunkSize arena)"
  have wf1: "Arena_wf arena1"
    using wf c by (simp add: Arena_wf_def arena1_def)
  have a1: "offset arena1 = a + n" "chunkSize arena1 = chunkSize arena"
    by (simp_all add: arena1_def)
  have step: "ArenaAllocAligned junk arena n al =
    (case (if cap (chunks arena ! c) < a + n then
             (case ArenaNextChunk junk arena1 bytes of
                Inl e \<Rightarrow> Inl e
              | Inr arena2 \<Rightarrow>
                  (case current arena2 of
                     None \<Rightarrow> Inl NullPointer
                   | Some c2 \<Rightarrow> Inr (arena2, (c2, 0))))
           else Inr (arena1, (c, unat a))) of
       Inl e \<Rightarrow> Inl e
     | Inr (arena3, result) \<Rightarrow>
         if n \<noteq> 0 then
           (case memset_arena arena3 result (CHR 0x00) n of
              Inl e \<Rightarrow> Inl e
            | Inr arena4 \<Rightarrow> Inr (arena4, result))
         else Inr (arena3, result))"
    using c
    by (simp add: ArenaAllocAligned_def arena1_def bytes_def Let_def a_def aligned_offset_def)
  have all: "\<And>k. k < length (chunks arena) \<Longrightarrow>
                length (buffer (chunks arena ! k)) = unat (cap (chunks arena ! k))"
    using wf by (simp add: Arena_wf_def list_all_length)
  have usum: "unat (a + n) = unat a + unat n"
    using room by (simp add: unat_word_ariths a_def)
  show ?thesis
  proof (cases "cap (chunks arena ! c) < a + n")
    case True
    have rb: "unat bytes + 16 < 2 ^ 64"
      using room wf by (simp add: bytes_def Arena_wf_def)
    have nb: "unat n \<le> unat bytes"
      by (simp add: bytes_def word_less_nat_alt)
    from ArenaNextChunk_ok [OF wf1 rb, of junk]
    obtain arena2 c2 where a2: "ArenaNextChunk junk arena1 bytes = Inr arena2" "Arena_wf arena2"
      "current arena2 = Some c2" "c2 < length (chunks arena2)"
      "unat bytes \<le> length (buffer (chunks arena2 ! c2))"
      "offset arena2 = offset arena1" "chunkSize arena2 = chunkSize arena1"
      by blast
    have fit: "0 + unat n \<le> length (buffer (chunks arena2 ! c2))"
      using nb a2(5) by simp
    from memset_arena_ok [OF a2(2) a2(4) fit, of "CHR 0x00"]
    obtain arena4 where a4: "memset_arena arena2 (c2, 0) (CHR 0x00) n = Inr arena4"
      "Arena_wf arena4" "offset arena4 = offset arena2" "chunkSize arena4 = chunkSize arena2"
      "region_bytes arena4 (c2, 0) (unat n) = replicate (unat n) (CHR 0x00)"
      by blast
    have res: "ArenaAllocAligned junk arena n al =
                 (if n \<noteq> 0 then Inr (arena4, (c2, 0)) else Inr (arena2, (c2, 0)))"
      using True a2(1,3) a4(1) by (simp add: step)
    have z: "n = 0 \<Longrightarrow> region_bytes arena2 (c2, 0) (unat n) = replicate (unat n) (CHR 0x00)"
      by (simp add: region_bytes_def)
    show ?thesis
      unfolding a_def [symmetric] using res a2 a4 z a1 by (cases "n = 0") simp_all
  next
    case False
    then have "unat a + unat n \<le> unat (cap (chunks arena ! c))"
      using usum by (simp add: word_less_nat_alt)
    then have fit: "unat a + unat n \<le> length (buffer (chunks arena1 ! c))"
      using all [OF c(2)] by (simp add: arena1_def)
    have c1: "c < length (chunks arena1)"
      using c by (simp add: arena1_def)
    from memset_arena_ok [OF wf1 c1 fit, of "CHR 0x00"]
    obtain arena4 where a4: "memset_arena arena1 (c, unat a) (CHR 0x00) n = Inr arena4"
      "Arena_wf arena4" "offset arena4 = offset arena1" "chunkSize arena4 = chunkSize arena1"
      "region_bytes arena4 (c, unat a) (unat n) = replicate (unat n) (CHR 0x00)"
      by blast
    have res: "ArenaAllocAligned junk arena n al =
                 (if n \<noteq> 0 then Inr (arena4, (c, unat a)) else Inr (arena1, (c, unat a)))"
      using False a4(1) by (simp add: step)
    have z: "n = 0 \<Longrightarrow>
               region_bytes arena1 (c, unat a) (unat n) = replicate (unat n) (CHR 0x00)"
      by (simp add: region_bytes_def)
    show ?thesis
      unfolding a_def [symmetric] using res a4 z a1 wf1 by (cases "n = 0") simp_all
  qed
qed

lemma aligned_offset_multiple:
  assumes al: "al = 2 ^ k" and k: "k < 64"
  shows "unat (aligned_offset arena al) mod unat al = 0"
proof (cases "offset arena AND (al - 1) = 0")
  case False
  then have "aligned_offset arena al = al"
    by (simp add: aligned_offset_def)
  then show ?thesis by simp
next
  case True
  then have "take_bit k (offset arena) = 0"
    by (simp add: al take_bit_eq_mask mask_eq_exp_minus_1)
  then have "unat (take_bit k (offset arena)) = 0"
    by (simp only: unat_0)
  then have "take_bit k (unat (offset arena)) = 0"
    by (simp only: unsigned_take_bit_eq)
  then have "unat (offset arena) mod 2 ^ k = 0"
    by (simp only: take_bit_eq_mod)
  moreover have "unat al = 2 ^ k"
  proof -
    have "(2 :: nat) ^ k < 2 ^ 64"
      using k by (intro power_strict_increasing) simp_all
    moreover have "al = of_nat (2 ^ k)"
      by (simp add: al)
    ultimately show ?thesis
      by (simp only: unat_of_nat) simp
  qed
  ultimately show ?thesis
    using True by (simp add: aligned_offset_def)
qed

text \<open>
  For an alignment that is a power of two the position returned is a multiple of it, and
  the region is zero-filled. (The position is not the offset rounded up: see C1.)
\<close>

lemma ArenaAllocAligned_region:
  assumes "Arena_wf arena" and "al = 2 ^ k" and "k < 64"
    and "unat (aligned_offset arena al) + unat n + 16 < 2 ^ 64"
  shows "\<exists>arena' c off. ArenaAllocAligned junk arena n al = Inr (arena', (c, off)) \<and>
           off mod unat al = 0 \<and>
           region_bytes arena' (c, off) (unat n) = replicate (unat n) (CHR 0x00)"
proof -
  from ArenaAllocAligned_ok [OF assms(1,4), of junk]
  obtain arena' c off where r: "ArenaAllocAligned junk arena n al = Inr (arena', (c, off))"
    "off = 0 \<or> off = unat (aligned_offset arena al)"
    "region_bytes arena' (c, off) (unat n) = replicate (unat n) (CHR 0x00)"
    by blast
  have "off mod unat al = 0"
    using r(2) aligned_offset_multiple [OF assms(2,3), of arena] by auto
  with r(1,3) show ?thesis
    by (intro exI [of _ arena'] exI [of _ c] exI [of _ off]) simp
qed

lemma ArenaAllocChars_ok:
  assumes wf: "Arena_wf arena" and room: "unat (offset arena) + unat n + 16 < 2 ^ 64"
  shows "\<exists>arena' p. ArenaAllocChars junk arena n = Inr (arena', p) \<and> Arena_wf arena' \<and>
           offset arena' = offset arena + n \<and> chunkSize arena' = chunkSize arena \<and>
           region_bytes arena' p (unat n) = replicate (unat n) (CHR 0x00)"
proof -
  have a: "aligned_offset arena 1 = offset arena"
    by (simp add: aligned_offset_def)
  with room have "unat (aligned_offset arena 1) + unat n + 16 < 2 ^ 64"
    by simp
  from ArenaAllocAligned_ok [OF wf this, of junk] show ?thesis
    unfolding ArenaAllocChars_def a by blast
qed

section \<open>Memory: reading, writing, and what a write leaves alone\<close>

lemma in_use_Inside:
  "in_use arena (Inside (c, off)) n \<longleftrightarrow>
     c < length (chunks arena) \<and> off + n \<le> length (buffer (chunks arena ! c)) \<and>
     (\<exists>cur. current arena = Some cur \<and>
        (c < cur \<or> (c = cur \<and> off + n \<le> unat (offset arena))))"
  by (auto simp: in_use_def split: option.splits)

lemma in_use_reach:
  assumes "in_use arena p n"
  shows "\<exists>b. reach arena p = Inr b \<and> n \<le> length b"
proof (cases p)
  case Null
  with assms show ?thesis by (simp add: in_use_def)
next
  case (Outside bytes)
  with assms show ?thesis by (simp add: in_use_def reach_def)
next
  case (Inside q)
  obtain c off where q: "q = (c, off)" by (cases q)
  from assms Inside q show ?thesis by (auto simp: in_use_Inside reach_def)
qed

lemma in_use_mono:
  assumes "in_use arena p n" and "m \<le> n"
  shows "in_use arena p m"
proof (cases p)
  case Null
  with assms show ?thesis by (simp add: in_use_def)
next
  case (Outside bytes)
  with assms show ?thesis by (simp add: in_use_def)
next
  case (Inside q)
  obtain c off where q: "q = (c, off)" by (cases q)
  from assms Inside q show ?thesis
    by (auto simp: in_use_Inside)
qed

lemma reach_ptr_add:
  assumes "reach arena p = Inr b" and "k \<le> length b"
  shows "reach arena (ptr_add p k) = Inr (drop k b)"
proof (cases p)
  case Null
  with assms show ?thesis by (simp add: reach_def)
next
  case (Outside bytes)
  with assms show ?thesis by (auto simp: reach_def ptr_add_def)
next
  case (Inside q)
  obtain c off where q: "q = (c, off)" by (cases q)
  from assms Inside q show ?thesis
    by (auto simp: reach_def ptr_add_def add.commute split: if_splits)
qed

lemma in_use_ptr_add:
  assumes "in_use arena p n" and "k + m \<le> n"
  shows "in_use arena (ptr_add p k) m"
proof (cases p)
  case Null
  with assms show ?thesis by (simp add: in_use_def)
next
  case (Outside bytes)
  with assms show ?thesis by (simp add: in_use_def ptr_add_def)
next
  case (Inside q)
  obtain c off where q: "q = (c, off)" by (cases q)
  from assms Inside q show ?thesis
    by (auto simp: in_use_Inside ptr_add_def)
qed

lemma bytes_at_reach: "reach arena p = Inr b \<Longrightarrow> bytes_at arena p n = take n b"
  by (simp add: bytes_at_def)

lemma keeps_refl: "keeps arena arena"
  by (simp add: keeps_def)

lemma keeps_trans: "keeps a b \<Longrightarrow> keeps b c \<Longrightarrow> keeps a c"
  by (simp add: keeps_def)

lemma keeps_bytes: "keeps a b \<Longrightarrow> in_use a p n \<Longrightarrow> bytes_at b p n = bytes_at a p n"
  by (simp add: keeps_def)

lemma keeps_in_use: "keeps a b \<Longrightarrow> in_use a p n \<Longrightarrow> in_use b p n"
  by (simp add: keeps_def)

lemma store_seg_meta:
  "current (store_seg arena (c, off) seg) = current arena"
  "offset (store_seg arena (c, off) seg) = offset arena"
  "chunkSize (store_seg arena (c, off) seg) = chunkSize arena"
  "length (chunks (store_seg arena (c, off) seg)) = length (chunks arena)"
  by (simp_all add: store_seg_def)

lemma store_seg_buffer:
  assumes "c < length (chunks arena)"
  shows "buffer (chunks (store_seg arena (c, off) seg) ! k) =
           (if k = c then take off (buffer (chunks arena ! c)) @ seg @
                          drop (off + length seg) (buffer (chunks arena ! c))
            else buffer (chunks arena ! k))"
  using assms by (simp add: store_seg_def nth_list_update)

lemma store_seg_length:
  assumes "c < length (chunks arena)" and "off + length seg \<le> length (buffer (chunks arena ! c))"
  shows "length (buffer (chunks (store_seg arena (c, off) seg) ! k)) =
           length (buffer (chunks arena ! k))"
  using assms by (simp add: store_seg_buffer)

lemma store_seg_cap:
  assumes "c < length (chunks arena)"
  shows "cap (chunks (store_seg arena (c, off) seg) ! k) = cap (chunks arena ! k)"
  using assms by (simp add: store_seg_def nth_list_update)

lemma store_seg_wf:
  assumes "Arena_wf arena" and "c < length (chunks arena)"
    and "off + length seg \<le> length (buffer (chunks arena ! c))"
  shows "Arena_wf (store_seg arena (c, off) seg)"
  using assms store_seg_length [OF assms(2,3)] store_seg_cap [OF assms(2), of off seg]
  by (auto simp: Arena_wf_def list_all_length store_seg_meta split: option.splits)

lemma store_seg_in_use:
  assumes "c < length (chunks arena)" and "off + length seg \<le> length (buffer (chunks arena ! c))"
  shows "in_use (store_seg arena (c, off) seg) p m = in_use arena p m"
proof (cases p)
  case Null
  then show ?thesis by (simp add: in_use_def)
next
  case (Outside bytes)
  then show ?thesis by (simp add: in_use_def)
next
  case (Inside q)
  obtain c' off' where q: "q = (c', off')" by (cases q)
  show ?thesis
    unfolding Inside q in_use_Inside
    by (simp add: store_seg_meta store_seg_length [OF assms])
qed

lemma store_seg_reach:
  assumes "c < length (chunks arena)" and "off + length seg \<le> length (buffer (chunks arena ! c))"
  shows "reach (store_seg arena (c, off) seg) (Inside (c, off)) =
           Inr (seg @ drop (off + length seg) (buffer (chunks arena ! c)))"
  using assms by (simp add: reach_def store_seg_meta store_seg_buffer)

lemma store_seg_apart:
  assumes c: "c < length (chunks arena)"
    and fit: "off + length seg \<le> length (buffer (chunks arena ! c))"
    and ap: "apart p m (c, off)"
  shows "bytes_at (store_seg arena (c, off) seg) p m = bytes_at arena p m"
proof (cases p)
  case Null
  then show ?thesis by (simp add: bytes_at_def reach_def)
next
  case (Outside bytes)
  then show ?thesis by (simp add: bytes_at_def reach_def)
next
  case (Inside q)
  obtain c' off' where q: "q = (c', off')" by (cases q)
  define b where "b = buffer (chunks arena ! c)"
  show ?thesis
  proof (cases "c' = c")
    case False
    then show ?thesis
      unfolding Inside q bytes_at_def reach_def
      by (simp add: store_seg_meta store_seg_buffer [OF c])
  next
    case True
    with ap Inside q have le: "off' + m \<le> off"
      by (simp add: apart_def)
    have offb: "off \<le> length b" using fit by (simp add: b_def)
    have "take m (drop off' (take off b @ seg @ drop (off + length seg) b)) = take m (drop off' b)"
    proof -
      have "drop off' (take off b @ seg @ drop (off + length seg) b) =
              drop off' (take off b) @ seg @ drop (off + length seg) b"
        using le offb by simp
      moreover have "length (drop off' (take off b)) = off - off'"
        using offb by simp
      ultimately have "take m (drop off' (take off b @ seg @ drop (off + length seg) b)) =
          take m (drop off' (take off b))"
        using le by simp
      also have "\<dots> = take m (drop off' b)"
        using le by (simp add: drop_take min_def)
      finally show ?thesis .
    qed
    moreover have "off' \<le> length b" using le offb by simp
    ultimately show ?thesis
      unfolding Inside q bytes_at_def reach_def using True c fit
      by (simp add: store_seg_meta store_seg_buffer [OF c] b_def)
  qed
qed

lemma poke_store_seg:
  assumes "c < length (chunks arena)" and "off + length seg \<le> length (buffer (chunks arena ! c))"
  shows "poke arena (Inside (c, off)) (seg @ drop (off + length seg) (buffer (chunks arena ! c))) =
           (store_seg arena (c, off) seg, Inside (c, off))"
  by (simp add: poke_def store_seg_def)

lemma memset_arena_store_seg:
  assumes "c < length (chunks arena)" and "off + unat n \<le> length (buffer (chunks arena ! c))"
  shows "memset_arena arena (c, off) v n = Inr (store_seg arena (c, off) (replicate (unat n) v))"
  using assms by (simp add: memset_arena_def store_seg_def Let_def)

lemma store_seg_nil:
  assumes "c < length (chunks arena)" and "off \<le> length (buffer (chunks arena ! c))"
  shows "store_seg arena (c, off) [] = arena"
  using assms by (simp add: store_seg_def list_update_same_conv)

lemma memcpy_store_seg:
  assumes c: "c < length (chunks arena)"
    and fit: "off + unat n \<le> length (buffer (chunks arena ! c))"
    and src: "reach arena src = Inr sb" "unat n \<le> length sb"
  shows "memcpy arena (Inside (c, off)) src n =
           Inr (store_seg arena (c, off) (take (unat n) sb), Inside (c, off))"
proof (cases "n = 0")
  case True
  then show ?thesis
    using store_seg_nil [OF c, of off] fit by (simp add: memcpy_def)
next
  case False
  define b where "b = buffer (chunks arena ! c)"
  define seg where "seg = take (unat n) sb"
  have ls: "length seg = unat n" using src(2) by (simp add: seg_def)
  have rd: "reach arena (Inside (c, off)) = Inr (drop off b)"
    using c fit by (simp add: reach_def b_def)
  have cpb: "memcpy_bytes (drop off b) (Some sb) n = Inr (seg @ drop (off + length seg) b)"
    using False src(2) fit by (simp add: memcpy_bytes_def seg_def b_def add.commute)
  have fs: "off + length seg \<le> length (buffer (chunks arena ! c))"
    using fit ls by simp
  have pk: "poke arena (Inside (c, off)) (seg @ drop (off + length seg) b) =
              (store_seg arena (c, off) seg, Inside (c, off))"
    using poke_store_seg [OF c fs] by (simp add: b_def)
  show ?thesis
    unfolding seg_def [symmetric] using False
    by (simp add: memcpy_def src(1) rd cpb pk)
qed

lemma addNullTerminator_store_seg:
  assumes c: "c < length (chunks arena)"
    and fit: "off + unat len < length (buffer (chunks arena ! c))"
  shows "addNullTerminator arena (Inside (c, off)) len =
           Inr (store_seg arena (c, off + unat len) [CHR 0x00], Inside (c, off))"
proof -
  define b where "b = buffer (chunks arena ! c)"
  have rd: "reach arena (Inside (c, off)) = Inr (drop off b)"
    using c fit by (simp add: reach_def b_def)
  have ntb: "addNullTerminator_bytes (drop off b) len = Inr ((drop off b)[unat len := CHR 0x00])"
    using fit by (simp add: addNullTerminator_bytes_def b_def)
  have "take off b @ (drop off b)[unat len := CHR 0x00] = b[off + unat len := CHR 0x00]"
    using fit by (intro nth_equalityI) (auto simp: nth_append nth_list_update b_def)
  also have "\<dots> = take (off + unat len) b @ [CHR 0x00] @ drop (off + unat len + 1) b"
    using fit by (simp add: upd_conv_take_nth_drop b_def)
  finally have "take off b @ (drop off b)[unat len := CHR 0x00] =
      take (off + unat len) b @ [CHR 0x00] @ drop (off + unat len + 1) b" .
  then show ?thesis
    using ntb by (simp add: addNullTerminator_def rd poke_def store_seg_def b_def)
qed

lemma bytes_at_add:
  "bytes_at arena (Inside (c, off)) (k + m) =
     bytes_at arena (Inside (c, off)) k @ bytes_at arena (ptr_add (Inside (c, off)) k) m"
  if "c < length (chunks arena)" and "off + k \<le> length (buffer (chunks arena ! c))"
  using that by (simp add: bytes_at_def reach_def ptr_add_def take_add add.commute)

lemma store_seg_bytes:
  assumes "c < length (chunks arena)" and "off + length seg \<le> length (buffer (chunks arena ! c))"
  shows "bytes_at (store_seg arena (c, off) seg) (Inside (c, off)) (length seg) = seg"
  using store_seg_reach [OF assms] by (simp add: bytes_at_def)

lemma ArenaNextChunk_walk_ge:
  "ArenaNextChunk_walk cs bytes cur nxt = (cur', True) \<Longrightarrow>
   \<exists>k. cur' = Some k \<and> nxt \<le> k \<and> k < length cs \<and> bytes < cap (cs ! k)"
proof (induction cs bytes cur nxt rule: ArenaNextChunk_walk.induct)
  case (1 cs bytes cur nxt)
  show ?case
  proof (cases "nxt < length cs")
    case False
    with "1.prems" show ?thesis
      by (subst (asm) ArenaNextChunk_walk.simps) simp
  next
    case True
    show ?thesis
    proof (cases "bytes < cap (cs ! nxt)")
      case True
      with \<open>nxt < length cs\<close> "1.prems" show ?thesis
        by (subst (asm) ArenaNextChunk_walk.simps) auto
    next
      case False
      with \<open>nxt < length cs\<close> "1.prems"
      have "ArenaNextChunk_walk cs bytes (Some nxt) (nxt + 1) = (cur', True)"
        by (subst (asm) ArenaNextChunk_walk.simps) simp
      with "1.IH" \<open>nxt < length cs\<close> False show ?thesis by fastforce
    qed
  qed
qed

text \<open>
  \<open>__ArenaNextChunk\<close> moves forward in the chain and leaves the chunks that are there
  as they are.
\<close>

lemma ArenaNextChunk_frame:
  assumes wf: "Arena_wf arena" and room: "unat bytes + 16 < 2 ^ 64"
    and cur: "current arena = Some c"
  shows "\<exists>arena' k. ArenaNextChunk junk arena bytes = Inr arena' \<and> Arena_wf arena' \<and>
           current arena' = Some k \<and> c < k \<and> k < length (chunks arena') \<and>
           unat bytes \<le> length (buffer (chunks arena' ! k)) \<and>
           offset arena' = offset arena \<and> chunkSize arena' = chunkSize arena \<and>
           length (chunks arena) \<le> length (chunks arena') \<and>
           (\<forall>j < length (chunks arena). chunks arena' ! j = chunks arena ! j)"
proof -
  have clt: "c < length (chunks arena)"
    using wf cur by (simp add: Arena_wf_def)
  obtain cur' found where w:
    "ArenaNextChunk_walk (chunks arena) bytes (Some c) (c + 1) = (cur', found)"
    by (cases "ArenaNextChunk_walk (chunks arena) bytes (Some c) (c + 1)") auto
  have all: "\<And>k. k < length (chunks arena) \<Longrightarrow>
                length (buffer (chunks arena ! k)) = unat (cap (chunks arena ! k))"
    using wf by (simp add: Arena_wf_def list_all_length)
  show ?thesis
  proof (cases found)
    case True
    with w have "ArenaNextChunk_walk (chunks arena) bytes (Some c) (c + 1) = (cur', True)"
      by simp
    from ArenaNextChunk_walk_ge [OF this]
    obtain k where k: "cur' = Some k" "c + 1 \<le> k" "k < length (chunks arena)"
      "bytes < cap (chunks arena ! k)"
      by auto
    have "unat bytes \<le> length (buffer (chunks arena ! k))"
      using k all [of k] by (simp add: word_less_nat_alt)
    moreover have "ArenaNextChunk junk arena bytes = Inr (arena\<lparr>current := Some k\<rparr>)"
      using w True k cur by (simp add: ArenaNextChunk_def)
    moreover have "Arena_wf (arena\<lparr>current := Some k\<rparr>)"
      using wf k by (simp add: Arena_wf_def)
    ultimately show ?thesis
      using k by (intro exI [of _ "arena\<lparr>current := Some k\<rparr>"] exI [of _ k]) simp
  next
    case False
    have u: "unat (sizeof_ArenaChunk + bytes) = 16 + unat bytes"
      using room by (simp add: sizeof_ArenaChunk_def unat_word_ariths)
    then have pos: "0 < sizeof_ArenaChunk + bytes"
      by (simp add: word_less_nat_alt)
    define ch where
      "ch = \<lparr>cap = bytes, buffer = drop 16 (map junk [0..<16 + unat bytes])\<rparr>"
    define arena' where
      "arena' = arena\<lparr>chunks := chunks arena @ [ch], current := Some (length (chunks arena))\<rparr>"
    have "ArenaNextChunk junk arena bytes = Inr arena'"
      using w False pos u cur
      by (simp add: ArenaNextChunk_def Malloc_def arena'_def ch_def sizeof_ArenaChunk_def)
    moreover have "Arena_wf arena'"
      using wf by (simp add: Arena_wf_def arena'_def ch_def)
    moreover have "unat bytes \<le> length (buffer (chunks arena' ! length (chunks arena)))"
      by (simp add: arena'_def ch_def)
    moreover have "\<forall>j < length (chunks arena). chunks arena' ! j = chunks arena ! j"
      by (simp add: arena'_def nth_append)
    ultimately show ?thesis
      using clt
      by (intro exI [of _ arena'] exI [of _ "length (chunks arena)"]) (simp add: arena'_def)
  qed
qed

text \<open>
  What \<open>ArenaAllocChars\<close> delivers on an arena whose offset has room to advance: a region
  of the current chunk (the one it was, or one further on in the chain) that lies in the
  buffer and below the new offset; memory in use before is still in use, holds the same
  bytes, and does not reach into the region.
\<close>

lemma ArenaAllocChars_frame:
  assumes wf: "Arena_wf arena" and room: "unat (offset arena) + unat n + 16 < 2 ^ 64"
  shows "\<exists>arena' c off. ArenaAllocChars junk arena n = Inr (arena', (c, off)) \<and>
           Arena_wf arena' \<and> offset arena' = offset arena + n \<and>
           chunkSize arena' = chunkSize arena \<and>
           current arena' = Some c \<and> c < length (chunks arena') \<and>
           off + unat n \<le> length (buffer (chunks arena' ! c)) \<and>
           off + unat n \<le> unat (offset arena') \<and>
           keeps arena arena' \<and>
           (\<forall>p m. in_use arena p m \<longrightarrow> apart p m (c, off))"
proof -
  define a where "a = offset arena"
  obtain c where c: "current arena = Some c" "c < length (chunks arena)"
    using wf by (auto simp: Arena_wf_def split: option.splits)
  define arena1 where "arena1 = arena\<lparr>offset := a + n\<rparr>"
  define bytes where "bytes = (if n > chunkSize arena then n else chunkSize arena)"
  have wf1: "Arena_wf arena1"
    using wf c by (simp add: Arena_wf_def arena1_def)
  have a1: "offset arena1 = a + n" "chunkSize arena1 = chunkSize arena"
    "current arena1 = Some c" "chunks arena1 = chunks arena"
    using c by (simp_all add: arena1_def)
  have step: "ArenaAllocChars junk arena n =
    (case (if cap (chunks arena ! c) < a + n then
             (case ArenaNextChunk junk arena1 bytes of
                Inl e \<Rightarrow> Inl e
              | Inr arena2 \<Rightarrow>
                  (case current arena2 of
                     None \<Rightarrow> Inl NullPointer
                   | Some c2 \<Rightarrow> Inr (arena2, (c2, 0))))
           else Inr (arena1, (c, unat a))) of
       Inl e \<Rightarrow> Inl e
     | Inr (arena3, result) \<Rightarrow>
         if n \<noteq> 0 then
           (case memset_arena arena3 result (CHR 0x00) n of
              Inl e \<Rightarrow> Inl e
            | Inr arena4 \<Rightarrow> Inr (arena4, result))
         else Inr (arena3, result))"
    using c
    by (simp add: ArenaAllocChars_def ArenaAllocAligned_def arena1_def bytes_def Let_def a_def)
  have all: "\<And>k. k < length (chunks arena) \<Longrightarrow>
                length (buffer (chunks arena ! k)) = unat (cap (chunks arena ! k))"
    using wf by (simp add: Arena_wf_def list_all_length)
  have usum: "unat (a + n) = unat a + unat n"
    using room by (simp add: unat_word_ariths a_def)
  have n0: "n = 0 \<Longrightarrow> unat n = 0" by simp
  show ?thesis
  proof (cases "cap (chunks arena ! c) < a + n")
    case True
    have rb: "unat bytes + 16 < 2 ^ 64"
      using room wf by (simp add: bytes_def Arena_wf_def)
    have nb: "unat n \<le> unat bytes"
      by (simp add: bytes_def word_less_nat_alt)
    from ArenaNextChunk_frame [OF wf1 rb a1(3), of junk]
    obtain arena2 k where a2: "ArenaNextChunk junk arena1 bytes = Inr arena2" "Arena_wf arena2"
      "current arena2 = Some k" "c < k" "k < length (chunks arena2)"
      "unat bytes \<le> length (buffer (chunks arena2 ! k))"
      "offset arena2 = offset arena1" "chunkSize arena2 = chunkSize arena1"
      "length (chunks arena1) \<le> length (chunks arena2)"
      "\<forall>j < length (chunks arena1). chunks arena2 ! j = chunks arena1 ! j"
      by blast
    have fit: "0 + unat n \<le> length (buffer (chunks arena2 ! k))"
      using nb a2(6) by simp
    define arena4 where "arena4 = store_seg arena2 (k, 0) (replicate (unat n) (CHR 0x00))"
    have fit': "0 + length (replicate (unat n) (CHR 0x00)) \<le> length (buffer (chunks arena2 ! k))"
      using fit by simp
    have ms: "memset_arena arena2 (k, 0) (CHR 0x00) n = Inr arena4"
      unfolding arena4_def using a2(5) fit by (rule memset_arena_store_seg)
    have res: "ArenaAllocChars junk arena n =
                 (if n \<noteq> 0 then Inr (arena4, (k, 0)) else Inr (arena2, (k, 0)))"
      using True a2(1,3) ms by (simp add: step)
    have k2: "keeps arena arena2"
      unfolding keeps_def
    proof (intro allI impI)
      fix p m
      assume iu: "in_use arena p m"
      show "in_use arena2 p m \<and> bytes_at arena2 p m = bytes_at arena p m"
      proof (cases p)
        case Null
        with iu show ?thesis by (simp add: in_use_def)
      next
        case (Outside bs)
        with iu show ?thesis by (simp add: in_use_def bytes_at_def reach_def)
      next
        case (Inside q)
        obtain c' off' where q: "q = (c', off')" by (cases q)
        from iu Inside q c have i: "c' < length (chunks arena)"
          "off' + m \<le> length (buffer (chunks arena ! c'))" "c' \<le> c"
          by (auto simp: in_use_Inside)
        have same: "chunks arena2 ! c' = chunks arena ! c'"
          using a2(10) i(1) a1(4) by simp
        have "in_use arena2 p m"
          using i a2(3,4,9) a1(4) same by (simp add: Inside q in_use_Inside)
        moreover have "bytes_at arena2 p m = bytes_at arena p m"
          using i a2(9) a1(4) same by (simp add: Inside q bytes_at_def reach_def)
        ultimately show ?thesis by simp
      qed
    qed
    have ap: "\<forall>p m. in_use arena p m \<longrightarrow> apart p m (k, 0)"
    proof (intro allI impI)
      fix p m
      assume iu: "in_use arena p m"
      show "apart p m (k, 0)"
      proof (cases p)
        case Null
        then show ?thesis by (simp add: apart_def)
      next
        case (Outside bs)
        then show ?thesis by (simp add: apart_def)
      next
        case (Inside q)
        obtain c' off' where q: "q = (c', off')" by (cases q)
        from iu Inside q c have "c' \<le> c" by (auto simp: in_use_Inside)
        with a2(4) show ?thesis by (simp add: Inside q apart_def)
      qed
    qed
    have k4: "keeps arena arena4"
      unfolding keeps_def
    proof (intro allI impI)
      fix p m
      assume iu: "in_use arena p m"
      have 1: "in_use arena2 p m" "bytes_at arena2 p m = bytes_at arena p m"
        using k2 iu by (simp_all add: keeps_def)
      have 2: "apart p m (k, 0)" using ap iu by simp
      show "in_use arena4 p m \<and> bytes_at arena4 p m = bytes_at arena p m"
        unfolding arena4_def
        using 1 store_seg_in_use [OF a2(5) fit'] store_seg_apart [OF a2(5) fit' 2]
        by simp
    qed
    have wf4: "Arena_wf arena4"
      unfolding arena4_def using a2(2,5) fit' by (rule store_seg_wf)
    have m4: "offset arena4 = offset arena + n" "chunkSize arena4 = chunkSize arena"
      "current arena4 = Some k" "k < length (chunks arena4)"
      "0 + unat n \<le> length (buffer (chunks arena4 ! k))"
      using a2 a1 fit store_seg_length [OF a2(5) fit', of k]
      by (simp_all add: arena4_def store_seg_meta a_def)
    have m2: "offset arena2 = offset arena + n" "chunkSize arena2 = chunkSize arena"
      using a2 a1 by (simp_all add: a_def)
    have le: "0 + unat n \<le> unat (offset arena + n)"
      using usum by (simp add: a_def)
    show ?thesis
    proof (cases "n = 0")
      case True
      then show ?thesis
        using res a2(2,3,5) m2 k2 ap le fit
        by (intro exI [of _ arena2] exI [of _ k] exI [of _ 0]) simp
    next
      case False
      then show ?thesis
        using res wf4 m4 k4 ap le
        by (intro exI [of _ arena4] exI [of _ k] exI [of _ 0]) simp
    qed
  next
    case False
    then have "unat a + unat n \<le> unat (cap (chunks arena ! c))"
      using usum by (simp add: word_less_nat_alt)
    then have fit: "unat a + unat n \<le> length (buffer (chunks arena1 ! c))"
      using all [OF c(2)] by (simp add: arena1_def)
    have c1: "c < length (chunks arena1)"
      using c by (simp add: arena1_def)
    define arena4 where "arena4 = store_seg arena1 (c, unat a) (replicate (unat n) (CHR 0x00))"
    have fit': "unat a + length (replicate (unat n) (CHR 0x00)) \<le> length (buffer (chunks arena1 ! c))"
      using fit by simp
    have ms: "memset_arena arena1 (c, unat a) (CHR 0x00) n = Inr arena4"
      unfolding arena4_def using c1 fit by (rule memset_arena_store_seg)
    have res: "ArenaAllocChars junk arena n =
                 (if n \<noteq> 0 then Inr (arena4, (c, unat a)) else Inr (arena1, (c, unat a)))"
      using False ms by (simp add: step)
    have k1: "keeps arena arena1"
      unfolding keeps_def
    proof (intro allI impI)
      fix p m
      assume iu: "in_use arena p m"
      show "in_use arena1 p m \<and> bytes_at arena1 p m = bytes_at arena p m"
      proof (cases p)
        case Null
        with iu show ?thesis by (simp add: in_use_def)
      next
        case (Outside bs)
        with iu show ?thesis by (simp add: in_use_def bytes_at_def reach_def)
      next
        case (Inside q)
        obtain c' off' where q: "q = (c', off')" by (cases q)
        from iu Inside q c usum show ?thesis
          by (auto simp: in_use_Inside bytes_at_def reach_def arena1_def a_def)
      qed
    qed
    have ap: "\<forall>p m. in_use arena p m \<longrightarrow> apart p m (c, unat a)"
    proof (intro allI impI)
      fix p m
      assume iu: "in_use arena p m"
      show "apart p m (c, unat a)"
      proof (cases p)
        case Null
        then show ?thesis by (simp add: apart_def)
      next
        case (Outside bs)
        then show ?thesis by (simp add: apart_def)
      next
        case (Inside q)
        obtain c' off' where q: "q = (c', off')" by (cases q)
        from iu Inside q c show ?thesis
          by (auto simp: in_use_Inside apart_def a_def)
      qed
    qed
    have k4: "keeps arena arena4"
      unfolding keeps_def
    proof (intro allI impI)
      fix p m
      assume iu: "in_use arena p m"
      have 1: "in_use arena1 p m" "bytes_at arena1 p m = bytes_at arena p m"
        using k1 iu by (simp_all add: keeps_def)
      have 2: "apart p m (c, unat a)" using ap iu by simp
      show "in_use arena4 p m \<and> bytes_at arena4 p m = bytes_at arena p m"
        unfolding arena4_def
        using 1 store_seg_in_use [OF c1 fit'] store_seg_apart [OF c1 fit' 2]
        by simp
    qed
    have wf4: "Arena_wf arena4"
      unfolding arena4_def using wf1 c1 fit' by (rule store_seg_wf)
    have m4: "offset arena4 = offset arena + n" "chunkSize arena4 = chunkSize arena"
      "current arena4 = Some c" "c < length (chunks arena4)"
      "unat a + unat n \<le> length (buffer (chunks arena4 ! c))"
      using a1 c1 fit store_seg_length [OF c1 fit', of c]
      by (simp_all add: arena4_def store_seg_meta a_def)
    have m1: "offset arena1 = offset arena + n"
      using a1 by (simp add: a_def)
    have le: "unat a + unat n \<le> unat (offset arena + n)"
      using usum by (simp add: a_def)
    show ?thesis
    proof (cases "n = 0")
      case True
      then show ?thesis
        using res wf1 a1(2,3) c1 m1 k1 ap le fit
        by (intro exI [of _ arena1] exI [of _ c] exI [of _ "unat a"]) simp
    next
      case False
      then show ?thesis
        using res wf4 m4 k4 ap le
        by (intro exI [of _ arena4] exI [of _ c] exI [of _ "unat a"]) simp
    qed
  qed
qed

section \<open>Vector: pushing\<close>

text \<open>
  The scenario of 130 pushes, evaluated: the vector at the end and the \<open>Realloc\<close>
  calls. It is evaluated with the one value of \<open>unit\<close> and carried over to every value.
\<close>

lemma VecPush_map:
  "VecPush (Vec_map f vector) (f v) = map_sum id (map_prod (Vec_map f) id) (VecPush vector v)"
  by (auto simp: VecPush_def Vec_map_def Realloc_def Let_def map_update take_map INT32_MAX_def)

lemma VecPush_all_map:
  "VecPush_all (Vec_map f vector) (map f vs) =
     map_sum id (map_prod (Vec_map f) id) (VecPush_all vector vs)"
proof (induction vs arbitrary: vector)
  case Nil
  show ?case by simp
next
  case (Cons v vs)
  show ?case
  proof (cases "VecPush vector v")
    case (Inl e)
    then show ?thesis by (simp add: VecPush_map)
  next
    case (Inr p)
    obtain vector' r where p: "p = (vector', r)" by (cases p)
    have c: "capacity_V (Vec_map f vector') = capacity_V vector'"
      "capacity_V (Vec_map f vector) = capacity_V vector"
      by (simp_all add: Vec_map_def)
    show ?thesis
      using Inr p Cons.IH [of vector'] c
      by (cases "VecPush_all vector' vs") (auto simp: VecPush_map)
  qed
qed

lemma VecPush_all_130_unit:
  "VecPush_all Vec_zero (replicate 130 ()) =
     Inr (\<lparr>data_V = replicate 130 (Some ()) @ replicate 126 None, length_V = 130,
           capacity_V = 256\<rparr>,
          [(0, 128), (128, 256)])"
  by code_simp

lemma VecPush_all_130:
  "VecPush_all Vec_zero (replicate 130 x) =
     Inr (\<lparr>data_V = replicate 130 (Some x) @ replicate 126 None, length_V = 130,
           capacity_V = 256\<rparr>,
          [(0, 128), (128, 256)])"
proof -
  have z: "(Vec_zero :: 'a Vec) = Vec_map (\<lambda>u. x) (Vec_zero :: unit Vec)"
    by (simp add: Vec_zero_def Vec_map_def)
  have r: "replicate 130 x = map (\<lambda>u. x) (replicate 130 ())"
    by (simp only: map_replicate)
  show ?thesis
    unfolding z r VecPush_all_map VecPush_all_130_unit
    by (simp add: Vec_map_def del: replicate_Suc)
qed

text \<open>
  A push on a vector that satisfies the invariant and holds fewer than \<open>2 ^ 30\<close>
  elements: the result, field by field.
\<close>

lemma VecPush_ok:
  assumes "Vec_wf vector" and "length_V vector < 2 ^ 30"
  shows "\<exists>vector'. VecPush vector v = Inr (vector', length_V vector = capacity_V vector) \<and>
           Vec_wf vector' \<and>
           length_V vector' = length_V vector + 1 \<and>
           Vec_elems vector' = Vec_elems vector @ [v] \<and>
           capacity_V vector' =
             (if length_V vector = capacity_V vector
              then (if capacity_V vector = 0 then 128 else capacity_V vector * 2)
              else capacity_V vector) \<and>
           data_V vector' =
             (if length_V vector = capacity_V vector
              then data_V vector @
                     replicate (nat (capacity_V vector') - nat (capacity_V vector)) None
              else data_V vector)[nat (length_V vector) := Some v]"
proof (cases "length_V vector = capacity_V vector")
  case True
  define c where "c = (if capacity_V vector = 0 then 128 else capacity_V vector * 2)"
  define n where "n = nat (length_V vector)"
  have wf: "0 \<le> length_V vector" "length (data_V vector) = n" "capacity_V vector = int n"
    "length_V vector = int n"
    using assms True by (auto simp: Vec_wf_def n_def)
  have c: "0 < c" "c \<le> INT32_MAX" "int n < c" "c \<noteq> 0" "\<not> c < 0"
    using assms True wf by (auto simp: c_def INT32_MAX_def)
  define block where "block = take (nat c) (data_V vector) @ replicate (nat c - n) (None :: 'a option)"
  have blk: "length block = nat c" "take n block = data_V vector" "n < length block"
    using wf c by (auto simp: block_def)
  have blk': "block = data_V vector @ replicate (nat c - n) None"
    using wf c by (simp add: block_def)
  have re: "Realloc (data_V vector) c = Inr block"
    using c wf by (simp add: Realloc_def block_def)
  have cdef: "(if capacity_V vector = 0 then 128 else capacity_V vector * 2) = c"
    by (simp add: c_def)
  have le: "length_V vector \<le> capacity_V vector" "capacity_V vector \<le> length_V vector"
    using True by simp_all
  have n30: "int n + 1 \<le> INT32_MAX"
    using assms(2) wf by (simp add: INT32_MAX_def)
  define vector' where
    "vector' = vector\<lparr>capacity_V := c, data_V := block[n := Some v], length_V := int n + 1\<rparr>"
  have eq: "VecPush vector v = Inr (vector', True)"
    unfolding VecPush_def Let_def cdef vector'_def
    using le c(1,2) re blk n30 wf(4) by simp
  have tk: "take (Suc n) (block[n := Some v]) = data_V vector @ [Some v]"
    using blk by (simp add: take_Suc_conv_app_nth)
  have 1: "Vec_wf vector'"
    using c blk by (simp add: Vec_wf_def vector'_def)
  have 2: "length_V vector' = length_V vector + 1"
    using wf by (simp add: vector'_def)
  have "nat (int n + 1) = Suc n" by simp
  then have 3: "Vec_elems vector' = Vec_elems vector @ [v]"
    using tk wf(2) by (simp add: Vec_elems_def vector'_def n_def [symmetric])
  have 4: "capacity_V vector' = c"
    by (simp add: vector'_def)
  have 5: "data_V vector' =
      (data_V vector @ replicate (nat c - nat (capacity_V vector)) None)
        [nat (length_V vector) := Some v]"
    using wf(3) by (simp add: vector'_def blk' n_def [symmetric])
  show ?thesis
    using eq 1 2 3 4 5 True by (intro exI [of _ vector']) (simp add: cdef)
next
  case False
  define n where "n = nat (length_V vector)"
  have wf: "length_V vector = int n" "n < length (data_V vector)"
    "length (data_V vector) = nat (capacity_V vector)" "int n < capacity_V vector"
    using assms False by (auto simp: Vec_wf_def n_def)
  define vector' where
    "vector' = vector\<lparr>data_V := (data_V vector)[n := Some v], length_V := int n + 1\<rparr>"
  have eq: "VecPush vector v = Inr (vector', False)"
    using wf assms(2) by (simp add: VecPush_def INT32_MAX_def vector'_def)
  have tk: "take (Suc n) ((data_V vector)[n := Some v]) = take n (data_V vector) @ [Some v]"
    using wf by (simp add: take_Suc_conv_app_nth)
  have 1: "Vec_wf vector'"
    using wf by (simp add: Vec_wf_def vector'_def)
  have 2: "length_V vector' = length_V vector + 1"
    using wf by (simp add: vector'_def)
  have "nat (int n + 1) = Suc n" by simp
  then have 3: "Vec_elems vector' = Vec_elems vector @ [v]"
    using tk by (simp add: Vec_elems_def vector'_def n_def [symmetric])
  have 4: "capacity_V vector' = capacity_V vector"
    by (simp add: vector'_def)
  have 5: "data_V vector' = (data_V vector)[nat (length_V vector) := Some v]"
    by (simp add: vector'_def n_def)
  show ?thesis
    using eq 1 2 3 4 5 False by (intro exI [of _ vector']) simp
qed

text \<open>
  C7: \<open>VecPush\<close> reallocates the backing buffer exactly when \<open>length = capacity\<close> held
  before the call. On every vector that satisfies the invariant and holds fewer than
  \<open>2 ^ 30\<close> elements the push returns, and its result is this: when the vector was
  full, the capacity is 128 for a capacity of 0 and twice the old capacity otherwise, and
  the buffer is the old one extended with unwritten slots to the new capacity; when it was
  not full, capacity and buffer are the old ones; in both cases \<open>v\<close> is then stored in
  slot \<open>length\<close> and the length is one more, so that the elements are the old ones
  followed by \<open>v\<close>, and the invariant holds again. Whenever a push returns, it has called
  \<open>Realloc\<close> exactly when the vector was full. With \<open>length > capacity\<close> the
  assertion ends the call before anything is reallocated. A zero-initialised vector pushed
  130 times ends with length 130, capacity 256 and a buffer of 256 slots whose first 130
  hold the values pushed; its \<open>Realloc\<close> calls are the one of the first push, from no
  buffer to the baseline capacity 128, and one growth of that capacity, from 128 to 256.
\<close>

theorem C7_VecPush_reallocates_iff_full:
  "(\<forall>vector' r. VecPush vector v = Inr (vector', r) \<longrightarrow>
      r = (length_V vector = capacity_V vector)) \<and>
   (Vec_wf vector \<and> length_V vector < 2 ^ 30 \<longrightarrow>
      (\<exists>vector'. VecPush vector v = Inr (vector', length_V vector = capacity_V vector) \<and>
         Vec_wf vector' \<and>
         length_V vector' = length_V vector + 1 \<and>
         Vec_elems vector' = Vec_elems vector @ [v] \<and>
         capacity_V vector' =
           (if length_V vector = capacity_V vector
            then (if capacity_V vector = 0 then 128 else capacity_V vector * 2)
            else capacity_V vector) \<and>
         data_V vector' =
           (if length_V vector = capacity_V vector
            then data_V vector @
                   replicate (nat (capacity_V vector') - nat (capacity_V vector)) None
            else data_V vector)[nat (length_V vector) := Some v])) \<and>
   (capacity_V vector < length_V vector \<longrightarrow>
      VecPush vector v =
        Inl (AssertFailed ''VecPush: Possible memory corruption or vector not initialized'')) \<and>
   VecPush_all Vec_zero (replicate 130 x) =
     Inr (\<lparr>data_V = replicate 130 (Some x) @ replicate 126 None, length_V = 130,
           capacity_V = 256\<rparr>,
          [(0, 128), (128, 256)])"
proof (intro conjI allI impI)
  fix vector' r
  assume "VecPush vector v = Inr (vector', r)"
  then show "r = (length_V vector = capacity_V vector)"
    by (auto simp: VecPush_def Let_def split: if_splits sum.splits)
next
  assume "Vec_wf vector \<and> length_V vector < 2 ^ 30"
  then have "Vec_wf vector" and "length_V vector < 2 ^ 30" by simp_all
  then show "\<exists>vector'. VecPush vector v = Inr (vector', length_V vector = capacity_V vector) \<and>
         Vec_wf vector' \<and>
         length_V vector' = length_V vector + 1 \<and>
         Vec_elems vector' = Vec_elems vector @ [v] \<and>
         capacity_V vector' =
           (if length_V vector = capacity_V vector
            then (if capacity_V vector = 0 then 128 else capacity_V vector * 2)
            else capacity_V vector) \<and>
         data_V vector' =
           (if length_V vector = capacity_V vector
            then data_V vector @
                   replicate (nat (capacity_V vector') - nat (capacity_V vector)) None
            else data_V vector)[nat (length_V vector) := Some v]"
    by (rule VecPush_ok)
next
  assume "capacity_V vector < length_V vector"
  then show "VecPush vector v =
      Inl (AssertFailed ''VecPush: Possible memory corruption or vector not initialized'')"
    by (simp add: VecPush_def)
next
  show "VecPush_all Vec_zero (replicate 130 x) =
     Inr (\<lparr>data_V = replicate 130 (Some x) @ replicate 126 None, length_V = 130,
           capacity_V = 256\<rparr>,
          [(0, 128), (128, 256)])"
    by (rule VecPush_all_130)
qed

text \<open>
  The first push on a zero-initialised vector: the vector is full (0 = 0), the buffer is
  reallocated to 128 slots, and the value pushed is in slot 0.
\<close>

theorem C7_VecPush_witness:
  "(\<exists>vector'. VecPush (Vec_zero :: nat Vec) 7 = Inr (vector', True) \<and>
      capacity_V vector' = 128 \<and> length_V vector' = 1 \<and>
      data_V vector' = Some 7 # replicate 127 None \<and> Vec_elems vector' = [7]) \<and>
   length_V (Vec_zero :: nat Vec) = capacity_V (Vec_zero :: nat Vec) \<and>
   Vec_wf (Vec_zero :: nat Vec)"
proof -
  note c7 = C7_VecPush_reallocates_iff_full [of "Vec_zero :: nat Vec" 7]
  have wf: "Vec_wf (Vec_zero :: nat Vec) \<and> length_V (Vec_zero :: nat Vec) < 2 ^ 30"
    by (simp add: Vec_wf_def Vec_zero_def)
  have eq: "length_V (Vec_zero :: nat Vec) = capacity_V (Vec_zero :: nat Vec)"
    by (simp add: Vec_zero_def)
  have z: "capacity_V (Vec_zero :: nat Vec) = 0" "length_V (Vec_zero :: nat Vec) = 0"
    "data_V (Vec_zero :: nat Vec) = []" "Vec_elems (Vec_zero :: nat Vec) = []"
    by (simp_all add: Vec_zero_def Vec_elems_def)
  have "\<exists>vector'. VecPush (Vec_zero :: nat Vec) 7 =
          Inr (vector', length_V (Vec_zero :: nat Vec) = capacity_V (Vec_zero :: nat Vec)) \<and>
         Vec_wf vector' \<and>
         length_V vector' = length_V (Vec_zero :: nat Vec) + 1 \<and>
         Vec_elems vector' = Vec_elems (Vec_zero :: nat Vec) @ [7] \<and>
         capacity_V vector' =
           (if length_V (Vec_zero :: nat Vec) = capacity_V (Vec_zero :: nat Vec)
            then (if capacity_V (Vec_zero :: nat Vec) = 0 then 128
                  else capacity_V (Vec_zero :: nat Vec) * 2)
            else capacity_V (Vec_zero :: nat Vec)) \<and>
         data_V vector' =
           (if length_V (Vec_zero :: nat Vec) = capacity_V (Vec_zero :: nat Vec)
            then data_V (Vec_zero :: nat Vec) @
                   replicate (nat (capacity_V vector') - nat (capacity_V (Vec_zero :: nat Vec))) None
            else data_V (Vec_zero :: nat Vec))[nat (length_V (Vec_zero :: nat Vec)) := Some 7]"
    using c7 [THEN conjunct2, THEN conjunct1] wf by (rule mp)
  then obtain vector' where p: "VecPush (Vec_zero :: nat Vec) 7 = Inr (vector', True)"
    and q: "capacity_V vector' = 128" "length_V vector' = 1" "Vec_elems vector' = [7]"
    and d: "data_V vector' = (replicate (nat (capacity_V vector')) None)[0 := Some 7]"
    unfolding z by auto
  have "replicate (nat (128 :: int)) (None :: nat option) = None # replicate 127 None"
    by (simp add: replicate_Suc [symmetric] del: replicate_Suc)
  with d q(1) have "data_V vector' = Some 7 # replicate 127 None" by simp
  with p q have "\<exists>vector'. VecPush (Vec_zero :: nat Vec) 7 = Inr (vector', True) \<and>
      capacity_V vector' = 128 \<and> length_V vector' = 1 \<and>
      data_V vector' = Some 7 # replicate 127 None \<and> Vec_elems vector' = [7]"
    by (intro exI [of _ vector']) simp
  with eq wf show ?thesis by (intro conjI) simp_all
qed

section \<open>Strings: copying into the arena\<close>

lemma ArenaCreate_64: "ArenaCreate junk0 64 = Inr arena64"
  by code_simp

text \<open>
  \<open>StrNewSize\<close> on a source that lies in memory in use, with the byte behind the
  \<open>len\<close> bytes copied: it returns a String in the arena that holds the \<open>len\<close> bytes
  of the source and a terminator, and memory in use before keeps its bytes.
\<close>

lemma StrNewSize_ok:
  assumes wf: "Arena_wf arena"
    and room: "unat (offset arena) + unat len + 17 < 2 ^ 64"
    and src: "in_use arena src (unat len + 1)"
  shows "\<exists>arena' q. StrNewSize junk arena src len =
             Inr (arena', \<lparr>length_S = len, data_S = Inside q\<rparr>) \<and>
           Arena_wf arena' \<and> unat (offset arena') = unat (offset arena) + unat len + 1 \<and>
           keeps arena arena' \<and> in_use arena' (Inside q) (unat len + 1) \<and>
           bytes_at arena' (Inside q) (unat len + 1) = bytes_at arena src (unat len) @ [CHR 0x00]"
proof -
  define m where "m = 1 * len + (1 :: size_t)"
  define L where "L = unat len"
  have um: "unat m = L + 1"
    using room by (simp add: m_def unat_word_ariths L_def)
  then have m0: "m \<noteq> 0" by (metis Suc_eq_plus1 nat.simps(3) unat_0)
  have room': "unat (offset arena) + unat m + 16 < 2 ^ 64"
    using room um by (simp add: L_def)
  from ArenaAllocChars_frame [OF wf room', of junk]
  obtain arena1 c off where al: "ArenaAllocChars junk arena m = Inr (arena1, (c, off))"
    and wf1: "Arena_wf arena1" and off1: "offset arena1 = offset arena + m"
    and cur1: "current arena1 = Some c" and c1: "c < length (chunks arena1)"
    and fit1: "off + unat m \<le> length (buffer (chunks arena1 ! c))"
    and below: "off + unat m \<le> unat (offset arena1)"
    and k1: "keeps arena arena1"
    and ap: "\<forall>p k. in_use arena p k \<longrightarrow> apart p k (c, off)"
    by blast
  define b1 where "b1 = buffer (chunks arena1 ! c)"
  have src1: "in_use arena1 src (L + 1)"
    using k1 src by (simp add: keeps_def L_def)
  from in_use_reach [OF src1]
  obtain sb where sb: "reach arena1 src = Inr sb" "L + 1 \<le> length sb" by blast
  have srcL: "in_use arena src L"
    using src by (rule in_use_mono) (simp add: L_def)
  have sbytes: "bytes_at arena src L = take L sb"
    using keeps_bytes [OF k1 srcL] sb(1) by (simp add: bytes_at_def)
  define R where "R = drop (off + (L + 1)) b1"
  define seg1 where "seg1 = take (L + 1) sb"
  define seg2 where "seg2 = take L sb @ [CHR 0x00]"
  have l1: "length seg1 = L + 1" and l2: "length seg2 = L + 1"
    using sb(2) by (simp_all add: seg1_def seg2_def)
  have fitb: "off + (L + 1) \<le> length b1"
    using fit1 um by (simp add: b1_def)
  have rd: "reach arena1 (Inside (c, off)) = Inr (drop off b1)"
    using c1 fitb by (simp add: reach_def b1_def)
  have dd: "drop (L + 1) (drop off b1) = R"
    by (simp add: R_def add.commute)
  have cpb: "memcpy_bytes (drop off b1) (Some sb) m = Inr (seg1 @ R)"
    using m0 um sb(2) fitb dd by (simp add: memcpy_bytes_def seg1_def)
  define arena2 where "arena2 = store_seg arena1 (c, off) seg1"
  have fs1: "off + length seg1 \<le> length (buffer (chunks arena1 ! c))"
    using fitb l1 by (simp add: b1_def)
  have pk1: "poke arena1 (Inside (c, off)) (seg1 @ R) = (arena2, Inside (c, off))"
    using poke_store_seg [OF c1 fs1] by (simp add: arena2_def R_def l1 b1_def)
  have cp: "memcpy arena1 (Inside (c, off)) src m = Inr (arena2, Inside (c, off))"
    using m0 by (simp add: memcpy_def sb(1) rd cpb pk1)
  have c2: "c < length (chunks arena2)"
    using c1 by (simp add: arena2_def store_seg_meta)
  have buf2: "buffer (chunks arena2 ! c) = take off b1 @ seg1 @ R"
    using store_seg_buffer [OF c1, of off seg1 c] by (simp add: arena2_def R_def l1 b1_def)
  have rd2: "reach arena2 (Inside (c, off)) = Inr (seg1 @ R)"
    using store_seg_reach [OF c1 fs1] by (simp add: arena2_def R_def l1 b1_def)
  have upd: "(seg1 @ R)[L := CHR 0x00] = seg2 @ R"
    using sb(2) by (simp add: seg1_def seg2_def list_update_append take_Suc_conv_app_nth)
  have ntb: "addNullTerminator_bytes (seg1 @ R) len = Inr (seg2 @ R)"
    using l1 upd by (simp add: addNullTerminator_bytes_def L_def [symmetric])
  define arena3 where "arena3 = store_seg arena2 (c, off) seg2"
  have fs2: "off + length seg2 \<le> length (buffer (chunks arena2 ! c))"
    using fitb l1 l2 by (simp add: buf2)
  have R2: "drop (off + length seg2) (buffer (chunks arena2 ! c)) = R"
    using fitb l1 l2 by (simp add: buf2)
  have pk2: "poke arena2 (Inside (c, off)) (seg2 @ R) = (arena3, Inside (c, off))"
    using poke_store_seg [OF c2 fs2] by (simp add: arena3_def R2)
  have nt: "addNullTerminator arena2 (Inside (c, off)) len = Inr (arena3, Inside (c, off))"
    by (simp add: addNullTerminator_def rd2 ntb pk2)
  have eq: "StrNewSize junk arena src len =
              Inr (arena3, \<lparr>length_S = len, data_S = Inside (c, off)\<rparr>)"
    unfolding StrNewSize_def Let_def m_def [symmetric]
    by (simp add: al cp nt)
  have wf2: "Arena_wf arena2"
    unfolding arena2_def using wf1 c1 fs1 by (rule store_seg_wf)
  have wf3: "Arena_wf arena3"
    unfolding arena3_def using wf2 c2 fs2 by (rule store_seg_wf)
  have meta3: "offset arena3 = offset arena + m" "current arena3 = Some c"
    "c < length (chunks arena3)"
    using off1 cur1 c1 by (simp_all add: arena3_def arena2_def store_seg_meta)
  have uoff: "unat (offset arena3) = unat (offset arena) + L + 1"
    using meta3(1) room um by (simp add: unat_word_ariths L_def)
  have keep: "keeps arena arena3"
    unfolding keeps_def
  proof (intro allI impI)
    fix p k
    assume iu: "in_use arena p k"
    have 1: "in_use arena1 p k" "bytes_at arena1 p k = bytes_at arena p k"
      using k1 iu by (simp_all add: keeps_def)
    have 2: "apart p k (c, off)" using ap iu by simp
    show "in_use arena3 p k \<and> bytes_at arena3 p k = bytes_at arena p k"
      unfolding arena3_def
      using 1 store_seg_in_use [OF c1 fs1] store_seg_apart [OF c1 fs1 2]
        store_seg_in_use [OF c2 fs2] store_seg_apart [OF c2 fs2 2]
      by (simp add: arena2_def)
  qed
  have buf3: "buffer (chunks arena3 ! c) = take off b1 @ seg2 @ R"
  proof -
    have "take off (buffer (chunks arena2 ! c)) = take off b1"
      using fitb by (simp add: buf2)
    with store_seg_buffer [OF c2, of off seg2 c] show ?thesis
      by (simp add: arena3_def R2)
  qed
  have len3: "length (buffer (chunks arena3 ! c)) = length b1"
    using fitb l2 by (simp add: buf3 R_def)
  have iu3: "in_use arena3 (Inside (c, off)) (L + 1)"
    using meta3 fitb len3 below um off1 by (simp add: in_use_Inside)
  have rd3: "reach arena3 (Inside (c, off)) = Inr (seg2 @ R)"
    using meta3(3) fitb len3 by (simp add: reach_def buf3)
  have by3: "bytes_at arena3 (Inside (c, off)) (L + 1) = take L sb @ [CHR 0x00]"
    using l2 by (simp add: bytes_at_def rd3 seg2_def)
  show ?thesis
    using eq wf3 uoff keep iu3 by3 sbytes
    by (intro exI [of _ arena3] exI [of _ "(c, off)"]) (simp add: L_def)
qed

lemma apart_mono: "apart p k (c, off) \<Longrightarrow> apart p k (c, off + j)"
  by (auto simp: apart_def split: cptr.splits)

text \<open>
  \<open>StrConcat\<close> on two operands that lie in memory in use: the result has the sum of
  the lengths, its bytes are the bytes of the first operand followed by those of the
  second, a terminator follows, and memory in use before keeps its bytes. On operands
  that an offset taken back has left outside the memory in use it is otherwise.
\<close>

lemma StrConcat_ok:
  assumes wf: "Arena_wf arena"
    and room: "unat (offset arena) + unat (length_S string1) + unat (length_S string2) + 17
                 < 2 ^ 64"
    and i1: "in_use arena (data_S string1) (unat (length_S string1))"
    and i2: "in_use arena (data_S string2) (unat (length_S string2))"
  shows "\<exists>arena' r. StrConcat junk arena string1 string2 = Inr (arena', r) \<and>
           length_S r = length_S string1 + length_S string2 \<and>
           String_bytes arena' r = String_bytes arena string1 @ String_bytes arena string2 \<and>
           bytes_at arena' (ptr_add (data_S r) (unat (length_S r))) 1 = [CHR 0x00] \<and>
           keeps arena arena'"
proof -
  define n1 where "n1 = unat (length_S string1)"
  define n2 where "n2 = unat (length_S string2)"
  define len where "len = length_S string1 + length_S string2"
  define m where "m = 1 * len + (1 :: size_t)"
  have ulen: "unat len = n1 + n2"
    using room by (simp add: len_def n1_def n2_def unat_word_ariths)
  have um: "unat m = n1 + n2 + 1"
    using room ulen by (simp add: m_def unat_word_ariths n1_def n2_def)
  have room': "unat (offset arena) + unat m + 16 < 2 ^ 64"
    using room um by (simp add: n1_def n2_def)
  have nn: "data_S string1 \<noteq> Null" "data_S string2 \<noteq> Null"
    using i1 i2 by (auto simp: in_use_def)
  have nl: "\<not> m < length_S string1" "\<not> m < length_S string2"
    using um by (simp_all add: word_less_nat_alt n1_def n2_def)
  from ArenaAllocChars_frame [OF wf room', of junk]
  obtain arena1 c off where al: "ArenaAllocChars junk arena m = Inr (arena1, (c, off))"
    and c1: "c < length (chunks arena1)"
    and fit1: "off + unat m \<le> length (buffer (chunks arena1 ! c))"
    and k1: "keeps arena arena1"
    and ap: "\<forall>p k. in_use arena p k \<longrightarrow> apart p k (c, off)"
    by blast
  define B where "B = length (buffer (chunks arena1 ! c))"
  have fitB: "off + n1 + n2 + 1 \<le> B"
    using fit1 um by (simp add: B_def)
  txt \<open>the first copy\<close>
  have i11: "in_use arena1 (data_S string1) n1"
    using k1 i1 unfolding n1_def by (rule keeps_in_use)
  from in_use_reach [OF i11]
  obtain sb1 where sb1: "reach arena1 (data_S string1) = Inr sb1" "n1 \<le> length sb1" by blast
  define seg1 where "seg1 = take n1 sb1"
  have l1: "length seg1 = n1" using sb1(2) by (simp add: seg1_def)
  have b1: "String_bytes arena string1 = seg1"
    using keeps_bytes [OF k1 i1] sb1(1)
    by (simp add: String_bytes_def bytes_at_def seg1_def n1_def)
  define arena2 where "arena2 = store_seg arena1 (c, off) seg1"
  have f1: "off + unat (length_S string1) \<le> length (buffer (chunks arena1 ! c))"
    using fitB by (simp add: B_def n1_def)
  have sb1': "unat (length_S string1) \<le> length sb1"
    using sb1(2) by (simp add: n1_def)
  have cp1: "memcpy_s arena1 (Inside (c, off)) m (data_S string1) (length_S string1) =
               Inr (0, arena2, Inside (c, off))"
    using nn(1) nl(1) memcpy_store_seg [OF c1 f1 sb1(1) sb1']
    by (simp add: memcpy_s_def arena2_def seg1_def n1_def)
  have fs1: "off + length seg1 \<le> length (buffer (chunks arena1 ! c))"
    using fitB l1 by (simp add: B_def)
  have c2: "c < length (chunks arena2)"
    using c1 by (simp add: arena2_def store_seg_meta)
  have B2: "length (buffer (chunks arena2 ! c)) = B"
    using store_seg_length [OF c1 fs1, of c] by (simp add: arena2_def B_def)
  txt \<open>the second copy\<close>
  have i21: "in_use arena1 (data_S string2) n2"
    using k1 i2 unfolding n2_def by (rule keeps_in_use)
  have i22: "in_use arena2 (data_S string2) n2"
    using i21 store_seg_in_use [OF c1 fs1] by (simp add: arena2_def)
  from in_use_reach [OF i22]
  obtain sb2 where sb2: "reach arena2 (data_S string2) = Inr sb2" "n2 \<le> length sb2" by blast
  define seg2 where "seg2 = take n2 sb2"
  have l2: "length seg2 = n2" using sb2(2) by (simp add: seg2_def)
  have ap2: "apart (data_S string2) n2 (c, off)"
    using ap i2 by (simp add: n2_def)
  have "bytes_at arena2 (data_S string2) n2 = bytes_at arena1 (data_S string2) n2"
    unfolding arena2_def using c1 fs1 ap2 by (rule store_seg_apart)
  then have b2: "String_bytes arena string2 = seg2"
    using keeps_bytes [OF k1 i2] sb2(1)
    by (simp add: String_bytes_def bytes_at_def seg2_def n2_def)
  define arena3 where "arena3 = store_seg arena2 (c, off + n1) seg2"
  have f2: "off + n1 + unat (length_S string2) \<le> length (buffer (chunks arena2 ! c))"
    using fitB by (simp add: B2 n2_def)
  have sb2': "unat (length_S string2) \<le> length sb2"
    using sb2(2) by (simp add: n2_def)
  have cp2: "memcpy_s arena2 (ptr_add (Inside (c, off)) n1) m (data_S string2)
               (length_S string2) = Inr (0, arena3, Inside (c, off + n1))"
    using nn(2) nl(2) memcpy_store_seg [OF c2 f2 sb2(1) sb2']
    by (simp add: memcpy_s_def arena3_def seg2_def n2_def ptr_add_def)
  have fs2: "off + n1 + length seg2 \<le> length (buffer (chunks arena2 ! c))"
    using fitB l2 by (simp add: B2)
  have c3: "c < length (chunks arena3)"
    using c2 by (simp add: arena3_def store_seg_meta)
  have B3: "length (buffer (chunks arena3 ! c)) = B"
    using store_seg_length [OF c2 fs2, of c] by (simp add: arena3_def B2)
  txt \<open>the terminator\<close>
  define arena4 where "arena4 = store_seg arena3 (c, off + unat len) [CHR 0x00]"
  have f3: "off + unat len < length (buffer (chunks arena3 ! c))"
    using fitB ulen by (simp add: B3)
  have nt: "addNullTerminator arena3 (Inside (c, off)) len = Inr (arena4, Inside (c, off))"
    unfolding arena4_def using c3 f3 by (rule addNullTerminator_store_seg)
  have fs3: "off + unat len + length [CHR 0x00] \<le> length (buffer (chunks arena3 ! c))"
    using f3 by simp
  have c4: "c < length (chunks arena4)"
    using c3 by (simp add: arena4_def store_seg_meta)
  have B4: "length (buffer (chunks arena4 ! c)) = B"
    using store_seg_length [OF c3 fs3, of c] by (simp add: arena4_def B3)
  define r where "r = \<lparr>length_S = len, data_S = Inside (c, off)\<rparr>"
  have eq: "StrConcat junk arena string1 string2 = Inr (arena4, r)"
    unfolding StrConcat_def Let_def len_def [symmetric] m_def [symmetric] n1_def [symmetric]
    using nn by (simp add: StrIsNull_def al cp1 cp2 nt r_def)
  txt \<open>the bytes of the result\<close>
  have p1: "bytes_at arena4 (Inside (c, off)) n1 = seg1"
  proof -
    have "bytes_at arena4 (Inside (c, off)) n1 = bytes_at arena3 (Inside (c, off)) n1"
      unfolding arena4_def using c3 fs3
      by (rule store_seg_apart) (simp add: apart_def ulen)
    also have "\<dots> = bytes_at arena2 (Inside (c, off)) n1"
      unfolding arena3_def using c2 fs2
      by (rule store_seg_apart) (simp add: apart_def)
    also have "\<dots> = seg1"
      using store_seg_bytes [OF c1 fs1] by (simp add: arena2_def l1)
    finally show ?thesis .
  qed
  have p2: "bytes_at arena4 (Inside (c, off + n1)) n2 = seg2"
  proof -
    have "bytes_at arena4 (Inside (c, off + n1)) n2 = bytes_at arena3 (Inside (c, off + n1)) n2"
      unfolding arena4_def using c3 fs3
      by (rule store_seg_apart) (simp add: apart_def ulen)
    also have "\<dots> = seg2"
      using store_seg_bytes [OF c2 fs2] by (simp add: arena3_def l2)
    finally show ?thesis .
  qed
  have p3: "bytes_at arena4 (Inside (c, off + unat len)) 1 = [CHR 0x00]"
    using store_seg_bytes [OF c3 fs3] by (simp add: arena4_def)
  have fa: "off + n1 \<le> length (buffer (chunks arena4 ! c))"
    using fitB by (simp add: B4)
  have bytes: "String_bytes arena4 r = seg1 @ seg2"
    using bytes_at_add [OF c4 fa, of n2] p1 p2
    by (simp add: String_bytes_def r_def ulen ptr_add_def)
  have trm: "bytes_at arena4 (ptr_add (data_S r) (unat (length_S r))) 1 = [CHR 0x00]"
    using p3 by (simp add: r_def ptr_add_def)
  txt \<open>memory in use before\<close>
  have keep: "keeps arena arena4"
    unfolding keeps_def
  proof (intro allI impI)
    fix p k
    assume iu: "in_use arena p k"
    have 1: "in_use arena1 p k" "bytes_at arena1 p k = bytes_at arena p k"
      using k1 iu by (simp_all add: keeps_def)
    have a0: "apart p k (c, off)" using ap iu by simp
    have a1: "apart p k (c, off + n1)" using a0 by (rule apart_mono)
    have a2: "apart p k (c, off + unat len)" using a0 by (rule apart_mono)
    show "in_use arena4 p k \<and> bytes_at arena4 p k = bytes_at arena p k"
      unfolding arena4_def
      using 1 store_seg_in_use [OF c1 fs1] store_seg_apart [OF c1 fs1 a0]
        store_seg_in_use [OF c2 fs2] store_seg_apart [OF c2 fs2 a1]
        store_seg_in_use [OF c3 fs3] store_seg_apart [OF c3 fs3 a2]
      by (simp add: arena2_def arena3_def)
  qed
  show ?thesis
    using eq bytes trm keep
    by (intro exI [of _ arena4] exI [of _ r]) (simp add: b1 b2 r_def len_def)
qed

text \<open>
  C6 at a failing input. On a fresh arena of chunk size 64: \<open>ArenaAllocChars(arena, 30)\<close>;
  \<open>x = StrNewSize(arena, "ABC", 3)\<close>, which puts \<open>x\<close> at bytes 30 to 33 of the
  chunk and the offset at 34; \<open>ArenaAllocAligned(arena, 8, 16)\<close>, which is
  \<open>ArenaAlloc(arena, 8)\<close>: it hands out bytes 16 to 23 and takes the offset back to 24;
  then \<open>StrConcat(arena, &x, &S("vwxyz"))\<close>. Both operands have data, and \<open>x\<close> holds
  \<open>"ABC"\<close> when \<open>StrConcat\<close> is called. Its allocation is bytes 24 to 32, over the
  three bytes of \<open>x\<close>, and zeroes them before they are copied (from bytes 30 to 32 to
  bytes 24 to 26, which do not overlap): the result has length 8, and its bytes are three
  zero bytes and \<open>"vwxyz"\<close>, not \<open>"ABCvwxyz"\<close>.
\<close>

theorem C6_StrConcat_operand_zeroed_by_allocation:
  "(case ArenaCreate junk0 64 of
      Inl e \<Rightarrow> Inl e
    | Inr arena0 \<Rightarrow>
        (case ArenaAllocChars junk0 arena0 30 of
           Inl e \<Rightarrow> Inl e
         | Inr (arena1, p1) \<Rightarrow>
             (case StrNewSize junk0 arena1 (Outside (''ABC'' @ [CHR 0x00])) 3 of
                Inl e \<Rightarrow> Inl e
              | Inr (arena2, x) \<Rightarrow>
                  (case ArenaAllocAligned junk0 arena2 8 16 of
                     Inl e \<Rightarrow> Inl e
                   | Inr (arena3, p3) \<Rightarrow>
                       (case StrConcat junk0 arena3 x (S_literal ''vwxyz'') of
                          Inl e \<Rightarrow> Inl e
                        | Inr (arena4, r) \<Rightarrow>
                            Inr (x, p3, offset arena3, String_bytes arena3 x,
                                 String_bytes arena3 (S_literal ''vwxyz''), r,
                                 String_bytes arena4 r)))))) =
     Inr (\<lparr>length_S = 3, data_S = Inside (0, 30)\<rparr>, (0, 16), 24, ''ABC'', ''vwxyz'',
          \<lparr>length_S = 8, data_S = Inside (0, 24)\<rparr>,
          [CHR 0x00, CHR 0x00, CHR 0x00,
           CHR ''v'', CHR ''w'', CHR ''x'', CHR ''y'', CHR ''z''])"
  by code_simp

section \<open>Strings: splitting and joining again\<close>

lemma memcmp_bytes_zero:
  "length xs = length ys \<Longrightarrow> memcmp_bytes xs ys = 0 \<Longrightarrow> xs = ys"
  by (induction xs ys rule: memcmp_bytes.induct) (auto split: if_splits)

lemma StrSplit_search_ok:
  assumes "reach arena data = Inr buf" and "end' \<le> length buf"
    and "reach arena (data_S delimiter) = Inr dbuf"
    and "unat (length_S delimiter) \<le> length dbuf"
  shows "\<exists>r. StrSplit_search arena data end' delimiter search = Inr r \<and>
           (case r of
              None \<Rightarrow> True
            | Some m \<Rightarrow> search \<le> m \<and> m + unat (length_S delimiter) \<le> end' \<and>
                take (unat (length_S delimiter)) (drop m buf) =
                  take (unat (length_S delimiter)) dbuf)"
  using assms
proof (induction arena data end' delimiter search rule: StrSplit_search.induct)
  case (1 arena data end' delimiter search)
  define D where "D = unat (length_S delimiter)"
  show ?case
  proof (cases "int search \<le> int end' - int D")
    case False
    then show ?thesis
      by (subst StrSplit_search.simps) (simp add: D_def)
  next
    case True
    then have in_range: "search + D \<le> end'" by linarith
    define xs where "xs = take D (drop search buf)"
    define ys where "ys = take D dbuf"
    have lens: "length xs = D" "length ys = D"
      using in_range "1.prems" by (simp_all add: xs_def ys_def D_def)
    have sl: "search \<le> length buf"
      using in_range "1.prems"(2) by simp
    have rs: "reach arena (ptr_add data search) = Inr (drop search buf)"
      using "1.prems"(1) sl by (rule reach_ptr_add)
    have fits: "unat (length_S delimiter) \<le> length buf - search"
      using in_range "1.prems"(2) by (simp add: D_def)
    have mc: "memcmp arena (ptr_add data search) (data_S delimiter) (length_S delimiter) =
                Inr (memcmp_bytes xs ys)"
    proof (cases "length_S delimiter = 0")
      case True
      then show ?thesis by (simp add: memcmp_def xs_def ys_def D_def)
    next
      case False
      then show ?thesis
        using "1.prems" fits rs
        by (simp add: memcmp_def xs_def ys_def D_def)
    qed
    show ?thesis
    proof (cases "memcmp_bytes xs ys = 0")
      case True
      then have "xs = ys" using lens by (intro memcmp_bytes_zero) simp_all
      then have "take D (drop search buf) = take D dbuf"
        by (simp add: xs_def ys_def)
      then show ?thesis
        using True \<open>int search \<le> int end' - int D\<close> in_range mc
        by (subst StrSplit_search.simps) (simp add: D_def)
    next
      case False
      have step: "StrSplit_search arena data end' delimiter search =
                    StrSplit_search arena data end' delimiter (search + 1)"
        using False \<open>int search \<le> int end' - int D\<close> mc
        by (subst StrSplit_search.simps) (simp add: D_def)
      from "1.IH" [OF _ mc False "1.prems"] True
      obtain r where r: "StrSplit_search arena data end' delimiter (search + 1) = Inr r"
        "case r of None \<Rightarrow> True
         | Some m \<Rightarrow> search + 1 \<le> m \<and> m + unat (length_S delimiter) \<le> end' \<and>
             take (unat (length_S delimiter)) (drop m buf) =
               take (unat (length_S delimiter)) dbuf"
        by (auto simp: D_def)
      then show ?thesis
        unfolding step by (auto split: option.splits)
    qed
  qed
qed

lemma rejoins_last: "rest \<noteq> [] \<Longrightarrow> rejoins d [rest] rest"
  by (simp add: rejoins_def)

lemma rejoins_Cons:
  assumes "rejoins d ts rest" and "d \<noteq> []"
  shows "rejoins d (t # ts) (t @ d @ rest)"
proof (cases "rest = []")
  case True
  with assms show ?thesis by (simp add: rejoins_def)
next
  case False
  with assms obtain x xs where ts: "ts = x # xs"
    by (cases ts) (auto simp: rejoins_def)
  with assms False show ?thesis by (auto simp: rejoins_def)
qed

lemma split_rest:
  assumes "c \<le> m" and "m + D \<le> E" and "E \<le> length buf"
  shows "drop c (take E buf) =
           take (m - c) (drop c buf) @ take D (drop m buf) @ drop (m + D) (take E buf)"
proof -
  define xs where "xs = take E buf"
  have a: "take (m - c) (drop c buf) = take (m - c) (drop c xs)"
    using assms by (simp add: xs_def drop_take min_def)
  have b: "take D (drop m buf) = take D (drop m xs)"
    using assms by (simp add: xs_def drop_take min_def)
  have "drop c xs = take (m - c) (drop c xs) @ drop (m - c) (drop c xs)"
    by (rule append_take_drop_id [symmetric])
  also have "drop (m - c) (drop c xs) = drop m xs"
    using assms by simp
  also have "drop m xs = take D (drop m xs) @ drop D (drop m xs)"
    by (rule append_take_drop_id [symmetric])
  also have "drop D (drop m xs) = drop (m + D) xs"
    by (simp add: add.commute)
  finally show ?thesis
    by (simp add: a b xs_def)
qed

lemma bytes_at_take: "k \<le> n \<Longrightarrow> take k (bytes_at arena p n) = bytes_at arena p k"
  by (simp add: bytes_at_def min_def split: sum.splits)

text \<open>
  The loop from a position \<open>c\<close> on, for a string and a delimiter that lie in memory in
  use: it returns, memory in use keeps its bytes, and the tokens it pushes, read when it
  has returned, rejoin to the bytes of the string from \<open>c\<close> on.
\<close>

lemma StrSplit_loop_ok:
  assumes del0: "length_S delimiter \<noteq> 0"
  shows "Arena_wf arena \<Longrightarrow> Vec_wf result \<Longrightarrow> c \<le> unat (length_S str) \<Longrightarrow>
         in_use arena (data_S str) (unat (length_S str) + 1) \<Longrightarrow>
         in_use arena (data_S delimiter) (unat (length_S delimiter)) \<Longrightarrow>
         unat (offset arena) + (unat (length_S str) - c) + 17 < 2 ^ 64 \<Longrightarrow>
         length_V result + int (unat (length_S str) - c) \<le> 2 ^ 30 \<Longrightarrow>
         \<exists>arena' result' toks.
           StrSplit_loop junk arena str delimiter c result = Inr (arena', result') \<and>
           Vec_elems result' = Vec_elems result @ toks \<and> keeps arena arena' \<and>
           rejoins (String_bytes arena delimiter) (map (String_bytes arena') toks)
             (drop c (String_bytes arena str))"
proof (induction "unat (length_S str) - c" arbitrary: c arena result rule: less_induct)
  case less
  define E where "E = unat (length_S str)"
  define D where "D = unat (length_S delimiter)"
  define d where "d = String_bytes arena delimiter"
  note prems = less.prems [folded E_def D_def]
  from in_use_reach [OF less.prems(4)]
  obtain buf where buf: "reach arena (data_S str) = Inr buf" and Eb: "E + 1 \<le> length buf"
    by (auto simp: E_def)
  from in_use_reach [OF less.prems(5)]
  obtain dbuf where dbuf: "reach arena (data_S delimiter) = Inr dbuf" and Db: "D \<le> length dbuf"
    by (auto simp: D_def)
  have xs: "String_bytes arena str = take E buf"
    by (simp add: String_bytes_def bytes_at_def buf E_def)
  have dd: "d = take D dbuf"
    by (simp add: d_def String_bytes_def bytes_at_def dbuf D_def)
  have D1: "1 \<le> D"
    using del0 unat_gt_0 [of "length_S delimiter"] by (simp add: D_def)
  have dlen: "length d = D"
    using Db by (simp add: dd)
  then have dne: "d \<noteq> []" using D1 by auto
  have strE: "in_use arena (data_S str) E"
    using less.prems(4) by (rule in_use_mono) (simp add: E_def)
  show ?case
  proof (cases "c < E")
    case False
    then have "StrSplit_loop junk arena str delimiter c result = Inr (arena, result)"
      by (subst StrSplit_loop.simps) (simp add: E_def)
    moreover have "drop c (String_bytes arena str) = []"
      using False by (simp add: xs)
    ultimately show ?thesis
      by (intro exI [of _ arena] exI [of _ result] exI [of _ "[]"])
        (simp add: rejoins_def keeps_refl)
  next
    case True
    note cE = this
    have Ele: "E \<le> length buf" using Eb by simp
    have Db': "unat (length_S delimiter) \<le> length dbuf" using Db by (simp add: D_def)
    from StrSplit_search_ok [OF buf Ele dbuf Db', of c]
    obtain r where r: "StrSplit_search arena (data_S str) E delimiter c = Inr r"
      "case r of None \<Rightarrow> True
       | Some m \<Rightarrow> c \<le> m \<and> m + D \<le> E \<and> take D (drop m buf) = d"
      unfolding D_def [symmetric] dd by blast
    have vlt: "length_V result < 2 ^ 30"
      using prems(7) cE by simp
    have cb: "c \<le> length buf" using cE Eb by simp
    have rc: "reach arena (ptr_add (data_S str) c) = Inr (drop c buf)"
      using buf cb by (rule reach_ptr_add)
    show ?thesis
    proof (cases r)
      case None
      define len :: size_t where "len = of_nat (E - c)"
      have ul: "unat len = E - c"
        unfolding len_def E_def by (rule le_unat_uoi [of _ "length_S str"]) simp
      have room: "unat (offset arena) + unat len + 17 < 2 ^ 64"
        using prems(6) ul by simp
      have src: "in_use arena (ptr_add (data_S str) c) (unat len + 1)"
        using less.prems(4) by (rule in_use_ptr_add) (use ul cE in \<open>simp add: E_def\<close>)
      from StrNewSize_ok [OF less.prems(1) room src, of junk]
      obtain arena' q where ns: "StrNewSize junk arena (ptr_add (data_S str) c) len =
          Inr (arena', \<lparr>length_S = len, data_S = Inside q\<rparr>)"
        and k1: "keeps arena arena'"
        and by1: "bytes_at arena' (Inside q) (unat len + 1) =
                    bytes_at arena (ptr_add (data_S str) c) (unat len) @ [CHR 0x00]"
        by blast
      define t where "t = \<lparr>length_S = len, data_S = Inside q\<rparr>"
      have sb: "bytes_at arena (ptr_add (data_S str) c) (unat len) = take (E - c) (drop c buf)"
        by (simp add: bytes_at_def rc ul)
      have lsb: "length (take (E - c) (drop c buf)) = E - c"
        using Eb by simp
      have "String_bytes arena' t = take (unat len) (bytes_at arena' (Inside q) (unat len + 1))"
        by (simp add: String_bytes_def t_def bytes_at_take)
      also have "\<dots> = take (unat len) (take (E - c) (drop c buf) @ [CHR 0x00])"
        by (simp only: by1 sb)
      also have "\<dots> = take (E - c) (drop c buf)"
        using lsb by (simp add: ul)
      finally have tb: "String_bytes arena' t = drop c (take E buf)"
        by (simp add: drop_take)
      from VecPush_ok [OF less.prems(2) vlt, of t]
      obtain result' where vp:
        "VecPush result t = Inr (result', length_V result = capacity_V result)"
        "Vec_elems result' = Vec_elems result @ [t]"
        by blast
      have "StrSplit_loop junk arena str delimiter c result = Inr (arena', result')"
        using cE r(1) None ns vp(1)
        by (subst StrSplit_loop.simps)
          (simp add: E_def [symmetric] len_def [symmetric] t_def [symmetric])
      moreover have "rejoins d (map (String_bytes arena') [t]) (drop c (String_bytes arena str))"
        using cE Eb by (simp add: tb xs rejoins_last)
      ultimately show ?thesis
        using vp(2) k1 unfolding d_def
        by (intro exI [of _ arena'] exI [of _ result'] exI [of _ "[t]"]) simp
    next
      case (Some m)
      then have m: "c \<le> m" "m + D \<le> E" "take D (drop m buf) = d"
        using r(2) by simp_all
      define len :: size_t where "len = of_nat (m - c)"
      have ul: "unat len = m - c"
        unfolding len_def
        by (rule le_unat_uoi [of _ "length_S str"]) (use m in \<open>simp add: E_def\<close>)
      have room: "unat (offset arena) + unat len + 17 < 2 ^ 64"
        using prems(6) ul m by simp
      have src: "in_use arena (ptr_add (data_S str) c) (unat len + 1)"
        using less.prems(4) by (rule in_use_ptr_add) (use ul m in \<open>simp add: E_def\<close>)
      from StrNewSize_ok [OF less.prems(1) room src, of junk]
      obtain arena1 q where ns: "StrNewSize junk arena (ptr_add (data_S str) c) len =
          Inr (arena1, \<lparr>length_S = len, data_S = Inside q\<rparr>)"
        and wf1: "Arena_wf arena1"
        and off1: "unat (offset arena1) = unat (offset arena) + unat len + 1"
        and k1: "keeps arena arena1"
        and iu1: "in_use arena1 (Inside q) (unat len + 1)"
        and by1: "bytes_at arena1 (Inside q) (unat len + 1) =
                    bytes_at arena (ptr_add (data_S str) c) (unat len) @ [CHR 0x00]"
        by blast
      define t where "t = \<lparr>length_S = len, data_S = Inside q\<rparr>"
      have sb: "bytes_at arena (ptr_add (data_S str) c) (unat len) = take (m - c) (drop c buf)"
        by (simp add: bytes_at_def rc ul)
      have lsb: "length (take (m - c) (drop c buf)) = m - c"
        using Eb m by simp
      have "String_bytes arena1 t = take (unat len) (bytes_at arena1 (Inside q) (unat len + 1))"
        by (simp add: String_bytes_def t_def bytes_at_take)
      also have "\<dots> = take (unat len) (take (m - c) (drop c buf) @ [CHR 0x00])"
        by (simp only: by1 sb)
      also have "\<dots> = take (m - c) (drop c buf)"
        using lsb by (simp add: ul)
      finally have tb1: "String_bytes arena1 t = take (m - c) (drop c buf)" .
      from VecPush_ok [OF less.prems(2) vlt, of t]
      obtain result1 where vp:
        "VecPush result t = Inr (result1, length_V result = capacity_V result)"
        "Vec_wf result1" "length_V result1 = length_V result + 1"
        "Vec_elems result1 = Vec_elems result @ [t]"
        by blast
      define c2 where "c2 = m + D"
      have adv: "\<not> c2 \<le> c" using m D1 by (simp add: c2_def)
      have step: "StrSplit_loop junk arena str delimiter c result =
                    StrSplit_loop junk arena1 str delimiter c2 result1"
        using cE r(1) Some ns vp(1) adv
        by (subst StrSplit_loop.simps)
          (simp add: E_def [symmetric] len_def [symmetric] t_def [symmetric]
             D_def [symmetric] c2_def [symmetric])
      have ih1: "unat (length_S str) - c2 < unat (length_S str) - c"
        using cE adv by (simp add: E_def)
      have ih3: "c2 \<le> unat (length_S str)"
        using m by (simp add: c2_def E_def)
      have ih4: "in_use arena1 (data_S str) (unat (length_S str) + 1)"
        using k1 less.prems(4) by (rule keeps_in_use)
      have ih5: "in_use arena1 (data_S delimiter) (unat (length_S delimiter))"
        using k1 less.prems(5) by (rule keeps_in_use)
      have ih6: "unat (offset arena1) + (unat (length_S str) - c2) + 17 < 2 ^ 64"
        using prems(6) off1 ul m D1 by (simp add: c2_def E_def [symmetric])
      have ih7: "length_V result1 + int (unat (length_S str) - c2) \<le> 2 ^ 30"
        using prems(7) vp(3) m D1 cE by (simp add: c2_def E_def [symmetric])
      from less.hyps [OF ih1 wf1 vp(2) ih3 ih4 ih5 ih6 ih7]
      obtain arena' result' toks where rec:
        "StrSplit_loop junk arena1 str delimiter c2 result1 = Inr (arena', result')"
        "Vec_elems result' = Vec_elems result1 @ toks"
        "keeps arena1 arena'"
        "rejoins (String_bytes arena1 delimiter) (map (String_bytes arena') toks)
           (drop c2 (String_bytes arena1 str))"
        by blast
      have d1: "String_bytes arena1 delimiter = d"
        using keeps_bytes [OF k1 less.prems(5)] by (simp add: String_bytes_def d_def)
      have s1: "String_bytes arena1 str = String_bytes arena str"
        using keeps_bytes [OF k1 strE] by (simp add: String_bytes_def E_def)
      have iut: "in_use arena1 (Inside q) (unat len)"
        using iu1 by (rule in_use_mono) simp
      have tb: "String_bytes arena' t = take (m - c) (drop c buf)"
        using keeps_bytes [OF rec(3) iut] tb1 by (simp add: String_bytes_def t_def)
      have rest: "drop c (String_bytes arena str) =
                    String_bytes arena' t @ d @ drop c2 (String_bytes arena str)"
        using split_rest [OF m(1) m(2), of buf] Eb
        by (simp add: xs tb m(3) c2_def)
      have "rejoins d (map (String_bytes arena') (t # toks)) (drop c (String_bytes arena str))"
        unfolding rest
        using rejoins_Cons [OF rec(4) [unfolded d1 s1] dne, of "String_bytes arena' t"] by simp
      moreover have "keeps arena arena'"
        using k1 rec(3) by (rule keeps_trans)
      ultimately show ?thesis
        using step rec(1,2) vp(4) unfolding d_def
        by (intro exI [of _ arena'] exI [of _ result'] exI [of _ "t # toks"]) simp
    qed
  qed
qed

text \<open>
  C3, as stated: the tokens of \<open>StrSplit\<close> joined with the delimiter give the string back,
  with a final empty token for an input that ends with the delimiter. On \<open>"a,"\<close> split
  at \<open>","\<close> the loop stops once \<open>curr\<close> has reached the end: the only token is
  \<open>"a"\<close>, and joining gives \<open>"a"\<close>, not \<open>"a,"\<close>.
\<close>

theorem C3_no_token_after_final_delimiter:
  "StrSplit_tokens junk0 arena64 (S_literal ''a,'') (S_literal '','') = Inr [''a''] \<and>
   StrSplit_rejoin junk0 arena64 (S_literal ''a,'') (S_literal '','') = Inr ''a'' \<and>
   String_bytes arena64 (S_literal ''a,'') = ''a,''"
  by code_simp

text \<open>
  C3, amended: for a String of at most \<open>2 ^ 30\<close> bytes and a delimiter that is not
  empty, both in memory in use (the String with the byte behind its last one, which
  \<open>StrNewSize\<close> copies too), on a well-formed arena whose offset can advance by the
  length of the string without wrapping, \<open>StrSplit\<close> returns, and its tokens joined
  with the delimiter are the string itself or the string without one delimiter at its
  very end (no empty token is pushed behind a delimiter that ends the string). The join is
  the string itself whenever the string does not end with the delimiter. The tokens are
  read from arena memory when \<open>StrSplit\<close> has returned; the string and the delimiter
  may lie in the arena or outside it.
\<close>

theorem C3_StrSplit_rejoin:
  assumes "Arena_wf arena"
    and "in_use arena (data_S str) (unat (length_S str) + 1)"
    and "in_use arena (data_S delimiter) (unat (length_S delimiter))"
    and "length_S delimiter \<noteq> 0"
    and "unat (offset arena) + unat (length_S str) + 17 < 2 ^ 64"
    and "unat (length_S str) \<le> 2 ^ 30"
  shows "\<exists>joined. StrSplit_rejoin junk arena str delimiter = Inr joined \<and>
           (joined = String_bytes arena str \<or>
            joined @ String_bytes arena delimiter = String_bytes arena str) \<and>
           (\<not> suffix (String_bytes arena delimiter) (String_bytes arena str) \<longrightarrow>
              joined = String_bytes arena str)"
proof -
  have v0: "Vec_wf (Vec_zero :: StringVector)"
    by (simp add: Vec_wf_def Vec_zero_def)
  have room: "unat (offset arena) + (unat (length_S str) - 0) + 17 < 2 ^ 64"
    using assms(5) by simp
  have "int (unat (length_S str)) \<le> int (2 ^ 30)"
    using assms(6) by (simp only: of_nat_le_iff)
  then have vroom: "length_V (Vec_zero :: StringVector) + int (unat (length_S str) - 0) \<le> 2 ^ 30"
    by (simp add: Vec_zero_def)
  from StrSplit_loop_ok [OF assms(4) assms(1) v0 _ assms(2) assms(3) room vroom, of junk]
  obtain arena' result' toks where loop:
    "StrSplit_loop junk arena str delimiter 0 Vec_zero = Inr (arena', result')"
    "Vec_elems result' = Vec_elems (Vec_zero :: StringVector) @ toks"
    "rejoins (String_bytes arena delimiter) (map (String_bytes arena') toks)
       (drop 0 (String_bytes arena str))"
    by auto
  have el: "Vec_elems result' = toks"
    using loop(2) by (simp add: Vec_elems_def Vec_zero_def)
  have nn: "data_S str \<noteq> Null" "data_S delimiter \<noteq> Null"
    using assms(2,3) by (auto simp: in_use_def)
  define joined where
    "joined = join_with (String_bytes arena delimiter) (map (String_bytes arena') toks)"
  have eq: "StrSplit_rejoin junk arena str delimiter = Inr joined"
    using nn assms(4) loop(1) el
    by (simp add: StrSplit_rejoin_def StrSplit_tokens_def StrSplit_def StrIsNull_def joined_def)
  have alt: "joined = String_bytes arena str \<or>
             joined @ String_bytes arena delimiter = String_bytes arena str"
    using loop(3) by (auto simp: rejoins_def joined_def split: if_splits)
  have "joined = String_bytes arena str"
    if "\<not> suffix (String_bytes arena delimiter) (String_bytes arena str)"
  proof (rule ccontr)
    assume "joined \<noteq> String_bytes arena str"
    with alt have "String_bytes arena str = joined @ String_bytes arena delimiter" by simp
    then have "suffix (String_bytes arena delimiter) (String_bytes arena str)" by (rule suffixI)
    with that show False by simp
  qed
  with eq alt show ?thesis by blast
qed

text \<open>
  An instance with the string in the arena: \<open>"a,b,,c"\<close>, made there by
  \<open>StrNewSize\<close>, split at \<open>","\<close>.
\<close>

lemma arena64_abc_made:
  "StrNewSize junk0 arena64 (Outside (''a,b,,c'' @ [CHR 0x00])) 6 =
     Inr (arena64_abc, \<lparr>length_S = 6, data_S = Inside (0, 0)\<rparr>)"
  by code_simp

lemma StrSplit_example:
  "StrSplit_tokens junk0 arena64_abc \<lparr>length_S = 6, data_S = Inside (0, 0)\<rparr> (S_literal '','') =
     Inr [''a'', ''b'', [], ''c'']"
  by code_simp

theorem C3_StrSplit_witness:
  "Arena_wf arena64_abc \<and>
   in_use arena64_abc (Inside (0, 0)) 7 \<and>
   String_bytes arena64_abc \<lparr>length_S = 6, data_S = Inside (0, 0)\<rparr> = ''a,b,,c'' \<and>
   \<not> suffix '','' ''a,b,,c'' \<and>
   StrSplit_rejoin junk0 arena64_abc \<lparr>length_S = 6, data_S = Inside (0, 0)\<rparr> (S_literal '','') =
     Inr ''a,b,,c''"
proof -
  define s where "s = \<lparr>length_S = 6, data_S = Inside (0, 0)\<rparr>"
  have wf: "Arena_wf arena64_abc"
    by (simp add: Arena_wf_def arena64_abc_def)
  have iu: "in_use arena64_abc (Inside (0, 0)) 7"
    by (simp add: in_use_def arena64_abc_def)
  have i1: "in_use arena64_abc (data_S s) (unat (length_S s) + 1)"
    using iu by (simp add: s_def)
  have i2: "in_use arena64_abc (data_S (S_literal '','')) (unat (length_S (S_literal '','')))"
    by (simp add: in_use_def S_literal_def)
  have n0: "length_S (S_literal '','') \<noteq> 0"
    and room: "unat (offset arena64_abc) + unat (length_S s) + 17 < 2 ^ 64"
    and small: "unat (length_S s) \<le> 2 ^ 30"
    by (simp_all add: S_literal_def arena64_abc_def s_def)
  have s1: "String_bytes arena64_abc s = ''a,b,,c''"
    by (simp add: String_bytes_def bytes_at_def reach_def arena64_abc_def s_def)
  have s2: "String_bytes arena64_abc (S_literal '','') = '',''"
    by (simp add: S_literal_def String_bytes_def bytes_at_def reach_def)
  have ns: "\<not> suffix '','' ''a,b,,c''"
    by (simp add: suffix_def)
  from C3_StrSplit_rejoin [OF wf i1 i2 n0 room small, of junk0]
  obtain joined where
    j: "StrSplit_rejoin junk0 arena64_abc s (S_literal '','') = Inr joined"
    and imp: "\<not> suffix (String_bytes arena64_abc (S_literal '','')) (String_bytes arena64_abc s) \<longrightarrow>
              joined = String_bytes arena64_abc s"
    by blast
  from imp ns have "joined = ''a,b,,c''"
    by (simp add: s1 s2)
  with j wf iu s1 ns show ?thesis by (simp add: s_def)
qed

text \<open>
  Where the offset has been taken back below a String, the String is not in memory in
  use, and the theorem above does not speak of it. On the arena of
  chunk size 64 after \<open>ArenaAllocChars(arena, 30)\<close>,
  \<open>x = StrNewSize(arena, "abcdefgh,", 9)\<close> and \<open>ArenaAllocAligned(arena, 8, 16)\<close>,
  \<open>x\<close> is at bytes 30 to 39 and the offset is 24; the token \<open>StrSplit\<close> allocates
  is bytes 24 to 32, over the first three bytes of \<open>x\<close>, which are zero when they are
  copied (to lower addresses, front first).
\<close>

lemma StrSplit_after_offset_went_back:
  "(case ArenaCreate junk0 64 of
      Inl e \<Rightarrow> Inl e
    | Inr arena0 \<Rightarrow>
        (case ArenaAllocChars junk0 arena0 30 of
           Inl e \<Rightarrow> Inl e
         | Inr (arena1, p1) \<Rightarrow>
             (case StrNewSize junk0 arena1 (Outside (''abcdefgh,'' @ [CHR 0x00])) 9 of
                Inl e \<Rightarrow> Inl e
              | Inr (arena2, x) \<Rightarrow>
                  (case ArenaAllocAligned junk0 arena2 8 16 of
                     Inl e \<Rightarrow> Inl e
                   | Inr (arena3, p3) \<Rightarrow>
                       (case StrSplit_tokens junk0 arena3 x (S_literal '','') of
                          Inl e \<Rightarrow> Inl e
                        | Inr tokens \<Rightarrow>
                            Inr (x, offset arena3, in_use arena3 (data_S x) 10, tokens)))))) =
     Inr (\<lparr>length_S = 9, data_S = Inside (0, 30)\<rparr>, 24, False,
          [[CHR 0x00, CHR 0x00, CHR 0x00, CHR ''d'', CHR ''e'', CHR ''f'', CHR ''g'', CHR ''h'']])"
  by code_simp

section \<open>Strings: equality, slicing, copying a buffer\<close>

text \<open>
  C10: \<open>StrEqual\<close> is true for any two Strings of length zero, whatever their data
  pointers are: the lengths agree and \<open>memcmp\<close> over zero bytes finds no difference. So
  the "no value" String (\<open>NULL\<close> data) compares equal to an empty string with a buffer,
  in the arena or outside it, although \<open>StrIsNull\<close> tells the two apart.
\<close>

theorem C10_StrEqual_zero_lengths:
  "(length_S string1 = 0 \<and> length_S string2 = 0 \<longrightarrow>
      StrEqual arena string1 string2 = Inr True) \<and>
   StrEqual arena \<lparr>length_S = 0, data_S = Null\<rparr> \<lparr>length_S = 0, data_S = Outside buf\<rparr> =
     Inr True \<and>
   StrEqual arena \<lparr>length_S = 0, data_S = Null\<rparr> \<lparr>length_S = 0, data_S = Inside p\<rparr> =
     Inr True \<and>
   StrIsNull \<lparr>length_S = 0, data_S = Null\<rparr> \<and>
   \<not> StrIsNull \<lparr>length_S = 0, data_S = Outside buf\<rparr> \<and>
   \<not> StrIsNull \<lparr>length_S = 0, data_S = Inside p\<rparr>"
  by (simp add: StrEqual_def memcmp_def StrIsNull_def)

theorem C10_StrEqual_witness:
  "StrEqual arena64 \<lparr>length_S = 0, data_S = Null\<rparr> (S_literal []) = Inr True \<and>
   StrEqual arena64 (S_literal []) \<lparr>length_S = 0, data_S = Outside ''abc''\<rparr> = Inr True"
  using C10_StrEqual_zero_lengths [of "\<lparr>length_S = 0, data_S = Null\<rparr>" "S_literal []" arena64]
    C10_StrEqual_zero_lengths [of "S_literal []" "\<lparr>length_S = 0, data_S = Outside ''abc''\<rparr>"
      arena64]
  by (simp add: S_literal_def)

text \<open>
  C4 at a failing input: \<open>StrSlice(arena, "hello world", 0, -6)\<close>. The parameter \<open>end\<close>
  is a \<open>size_t\<close>, so \<open>-6\<close> arrives as \<open>2 ^ 64 - 6\<close>, the test \<open>end < 0\<close> is never
  true, the branch that would add the length is skipped, and the assertion
  \<open>end <= str->length\<close> fails: the call aborts instead of returning \<open>"hello"\<close>.
\<close>

theorem C4_negative_end_aborts:
  "StrSlice junk arena (S_literal ''hello world'') 0 (- 6) =
     Inl (AssertFailed ''StrSlice: end index out of bounds'')"
  by (simp add: StrSlice_def S_literal_def)

text \<open>
  C8 at a failing input: a source buffer of exactly three bytes and \<open>len = 3\<close>, on a
  fresh arena of chunk size 64. \<open>memcpy\<close> is called with \<open>memorySize = len + 1\<close>, so it
  reads the byte at index 3, which the buffer does not have. With a fourth byte behind
  the three the call returns a String of length 3 at the start of the chunk, where the
  three bytes and a terminator then are.
\<close>

theorem C8_StrNewSize_reads_one_byte_more:
  "(case ArenaCreate junk0 64 of
      Inl e \<Rightarrow> Inl e
    | Inr arena \<Rightarrow> map_sum id snd (StrNewSize junk0 arena (Outside ''abc'') 3)) =
     Inl OutOfBounds \<and>
   (case ArenaCreate junk0 64 of
      Inl e \<Rightarrow> Inl e
    | Inr arena \<Rightarrow>
        map_sum id (\<lambda>(arena', str). (str, bytes_at arena' (data_S str) 4))
          (StrNewSize junk0 arena (Outside ''abcd'') 3)) =
     Inr (\<lparr>length_S = 3, data_S = Inside (0, 0)\<rparr>, [CHR ''a'', CHR ''b'', CHR ''c'', CHR 0x00])"
  by code_simp

section \<open>Strings: trimming\<close>

lemma StrTrim_scan_total:
  "len \<le> length buf \<Longrightarrow> \<exists>f' l'. StrTrim_scan buf len i f l = Inr (f', l')"
proof (induction buf len i f l rule: StrTrim_scan.induct)
  case (1 buf len i firstChar lastChar)
  show ?case
  proof (cases "i < len")
    case True
    with 1 show ?thesis
      by (subst StrTrim_scan.simps) auto
  next
    case False
    then show ?thesis by (subst StrTrim_scan.simps) simp
  qed
qed

lemma StrTrim_scan_bound:
  "StrTrim_scan buf len i f l = Inr r \<Longrightarrow> i < len \<Longrightarrow> len \<le> length buf"
proof (induction buf len i f l rule: StrTrim_scan.induct)
  case (1 buf len i firstChar lastChar)
  from "1.prems" have i: "i < length buf"
    by (subst (asm) StrTrim_scan.simps) (auto split: if_splits)
  show ?case
  proof (cases "i + 1 < len")
    case True
    with 1 i show ?thesis
      by (subst (asm) (3) StrTrim_scan.simps) (auto split: if_splits)
  next
    case False
    with "1.prems" i show ?thesis by simp
  qed
qed

lemma StrTrim_scan_inv:
  "StrTrim_scan buf len i f l = Inr (f', l') \<Longrightarrow> i \<le> len \<Longrightarrow> trim_inv buf i f l \<Longrightarrow>
   trim_inv buf len f' l'"
proof (induction buf len i f l rule: StrTrim_scan.induct)
  case (1 buf len i firstChar lastChar)
  show ?case
  proof (cases "i < len")
    case False
    with "1.prems" show ?thesis
      by (subst (asm) StrTrim_scan.simps) simp
  next
    case True
    note lt = this
    from "1.prems"(1) lt have ib: "i < length buf"
      by (subst (asm) StrTrim_scan.simps) (auto split: if_splits)
    show ?thesis
    proof (cases "isSpace (buf ! i)")
      case True
      with "1.prems"(1) lt ib
      have "StrTrim_scan buf len (i + 1) firstChar lastChar = Inr (f', l')"
        by (subst (asm) StrTrim_scan.simps) simp
      moreover have "trim_inv buf (i + 1) firstChar lastChar"
        using "1.prems"(3) by (auto simp: trim_inv_def split: option.splits)
      ultimately show ?thesis
        using "1.IH"(1) lt ib True by simp
    next
      case False
      with "1.prems"(1) lt ib
      have "StrTrim_scan buf len (i + 1)
              (if firstChar = None then Some i else firstChar) (Some i) = Inr (f', l')"
        by (subst (asm) StrTrim_scan.simps) simp
      moreover have "trim_inv buf (i + 1) (if firstChar = None then Some i else firstChar) (Some i)"
        using "1.prems"(3) False by (auto simp: trim_inv_def split: option.splits)
      ultimately show ?thesis
        using "1.IH"(2) lt ib False by simp
    qed
  qed
qed

lemma StrTrim_scan_first_kept:
  "StrTrim_scan buf len i (Some a) l = Inr (f', l') \<Longrightarrow> f' = Some a"
proof (induction buf len i "Some a :: nat option" l rule: StrTrim_scan.induct)
  case (1 buf len i lastChar)
  show ?case
  proof (cases "i < len")
    case False
    with "1.prems" show ?thesis
      by (subst (asm) StrTrim_scan.simps) simp
  next
    case True
    with 1 show ?thesis
      by (subst (asm) (3) StrTrim_scan.simps) (auto split: if_splits)
  qed
qed

lemma StrTrim_scan_last:
  "StrTrim_scan buf len i f l = Inr (f', l') \<Longrightarrow> i < len \<Longrightarrow> \<not> isSpace (buf ! (len - 1)) \<Longrightarrow>
   l' = Some (len - 1)"
proof (induction buf len i f l rule: StrTrim_scan.induct)
  case (1 buf len i firstChar lastChar)
  from "1.prems" have ib: "i < length buf"
    by (subst (asm) StrTrim_scan.simps) (auto split: if_splits)
  show ?case
  proof (cases "i + 1 < len")
    case True
    with 1 ib show ?thesis
      by (subst (asm) (3) StrTrim_scan.simps) (auto split: if_splits)
  next
    case False
    with "1.prems" have i: "i = len - 1" by simp
    have stop: "\<And>f l. StrTrim_scan buf len len f l = Inr (f, l)"
      by (subst StrTrim_scan.simps) simp
    from "1.prems" ib i show ?thesis
      by (subst (asm) StrTrim_scan.simps) (simp add: stop)
  qed
qed

lemma StrTrim_buf_fixed:
  assumes n: "1 \<le> n" "n < length b" "n \<le> unat (z :: size_t)"
    and b: "\<not> isSpace (b ! 0)" "\<not> isSpace (b ! (n - 1))" "b ! n = CHR 0x00"
  shows "StrTrim_buf (of_nat n) b = Inr (of_nat n, b)"
proof -
  have un: "unat (of_nat n :: size_t) = n"
    using n(3) by (rule le_unat_uoi)
  then have n0: "(of_nat n :: size_t) \<noteq> 0"
    using n(1) by (metis not_one_le_zero unat_0 un)
  show ?thesis
  proof (cases "n = 1")
    case True
    with n b show ?thesis by (auto simp: StrTrim_buf_def)
  next
    case False
    then have n2: "2 \<le> n" using n(1) by simp
    have n1: "(of_nat n :: size_t) \<noteq> 1"
      using un False by (metis unat_1)
    have step: "StrTrim_scan b n 0 None None = StrTrim_scan b n 1 (Some 0) (Some 0)"
      using n2 n(2) b(1) by (subst StrTrim_scan.simps) auto
    obtain f' l' where r: "StrTrim_scan b n 1 (Some 0) (Some 0) = Inr (f', l')"
      using StrTrim_scan_total [of n b 1 "Some 0" "Some 0"] n(2) by auto
    have f': "f' = Some 0" using r by (rule StrTrim_scan_first_kept)
    have l': "l' = Some (n - 1)"
      using r n2 b(2) by (intro StrTrim_scan_last [of b n 1 "Some 0" "Some 0" f' l']) simp_all
    have len: "(of_nat (n - 1 - 0) :: size_t) + 1 = of_nat n"
      using n(1) by (simp add: of_nat_diff)
    have cp: "memcpy_s_bytes b (of_nat n) (Some b) (of_nat n) = Inr (0, b)"
      using n0 un n(2) by (simp add: memcpy_s_bytes_def memcpy_bytes_def)
    have nt: "addNullTerminator_bytes b (of_nat n) = Inr b"
      using un n(2) b(3) by (simp add: addNullTerminator_bytes_def list_update_same_conv)
    have sc0: "StrTrim_scan b n 0 None None = Inr (Some 0, Some (n - 1))"
      using step r f' l' by simp
    have ne: "0 < length b" using n(2) by (cases b) simp_all
    show ?thesis
      using n0 n1 ne len by (simp add: StrTrim_buf_def un sc0 cp nt Let_def)
  qed
qed

lemma StrTrim_buf_idem:
  assumes "StrTrim_buf len0 buf = Inr (len2, buf2)" and l0: "len0 \<noteq> 0"
  shows "(len2 = 0 \<or> StrTrim_buf len2 buf2 = Inr (len2, buf2)) \<and> length buf2 = length buf"
proof (cases "len0 = 1")
  case True
  with assms show ?thesis
    by (auto simp: StrTrim_buf_def split: if_splits)
next
  case False
  note l1 = this
  define len where "len = unat len0"
  obtain f l where sc: "StrTrim_scan buf len 0 None None = Inr (f, l)"
    using assms l1
    by (cases "StrTrim_scan buf len 0 None None") (auto simp: StrTrim_buf_def len_def)
  have inv: "trim_inv buf len f l"
    using StrTrim_scan_inv [OF sc] by (simp add: trim_inv_def)
  have len0: "0 < len"
    using l0 by (simp add: len_def unat_gt_0)
  have lb: "len \<le> length buf"
    using StrTrim_scan_bound [OF sc len0] .
  show ?thesis
  proof (cases "f = None \<or> l = None")
    case True
    then have "len2 = 0 \<and> buf2 = buf[0 := CHR 0x00]"
      using assms l1 sc len0 lb
      by (auto simp: StrTrim_buf_def len_def [symmetric] addNullTerminator_bytes_def
            split: option.splits if_splits)
    then show ?thesis by simp
  next
    case False
    then obtain a b where fl: "f = Some a" "l = Some b" by auto
    have ab: "a \<le> b" "b < len" "\<not> isSpace (buf ! a)" "\<not> isSpace (buf ! b)"
      using inv by (simp_all add: trim_inv_def fl)
    define n where "n = b - a + 1"
    have n: "1 \<le> n" "n \<le> len" "a + n \<le> length buf" "n \<le> length buf"
      using ab lb by (simp_all add: n_def)
    have wn: "(of_nat (b - a) :: size_t) + 1 = of_nat n"
      by (simp add: n_def)
    have un: "unat (of_nat n :: size_t) = n"
      using n(2) unfolding len_def by (rule le_unat_uoi)
    have n0: "(of_nat n :: size_t) \<noteq> 0"
      using n(1) un by (metis not_one_le_zero unat_0)
    have nles: "\<not> len0 < (of_nat n :: size_t)"
      using n(2) un by (simp add: word_less_nat_alt len_def)
    define buf1 where "buf1 = take n (drop a buf) @ drop n buf"
    have cp: "memcpy_s_bytes buf len0 (Some (drop a buf)) (of_nat n) = Inr (0, buf1)"
      using n0 un n nles by (simp add: memcpy_s_bytes_def memcpy_bytes_def buf1_def)
    have l1len: "length buf1 = length buf"
      using n by (simp add: buf1_def)
    from assms l1 sc fl wn cp
    have tm: "(case addNullTerminator_bytes buf1 (of_nat n) of
                 Inl e \<Rightarrow> Inl e
               | Inr buf2' \<Rightarrow> Inr (of_nat n :: size_t, buf2')) = Inr (len2, buf2)"
      by (simp add: StrTrim_buf_def len_def [symmetric] Let_def)
    then have nlt: "n < length buf" and t: "len2 = of_nat n" "buf2 = buf1[n := CHR 0x00]"
      using un l1len by (auto simp: addNullTerminator_bytes_def split: if_splits)
    have b0: "buf1 ! 0 = buf ! a"
      using n by (simp add: buf1_def nth_append)
    have bl: "buf1 ! (n - 1) = buf ! b"
      using n ab by (simp add: buf1_def nth_append n_def)
    have "StrTrim_buf (of_nat n) (buf1[n := CHR 0x00]) = Inr (of_nat n, buf1[n := CHR 0x00])"
      using n nlt l1len ab b0 bl
      by (intro StrTrim_buf_fixed [where z = len0]) (simp_all add: len_def)
    then show ?thesis by (simp add: t l1len)
  qed
qed

lemma StrTrim_buf_returns:
  assumes l0: "len0 \<noteq> 0" and lt: "unat len0 < length buf"
  shows "\<exists>len2 buf2. StrTrim_buf len0 buf = Inr (len2, buf2)"
proof (cases "len0 = 1")
  case True
  with lt show ?thesis by (auto simp: StrTrim_buf_def)
next
  case False
  note l1 = this
  define len where "len = unat len0"
  obtain f l where sc: "StrTrim_scan buf len 0 None None = Inr (f, l)"
    using StrTrim_scan_total [of len buf 0 None None] lt by (auto simp: len_def)
  have inv: "trim_inv buf len f l"
    using StrTrim_scan_inv [OF sc] by (simp add: trim_inv_def)
  have ne: "0 < length buf" using lt by (cases buf) simp_all
  show ?thesis
  proof (cases "f = None \<or> l = None")
    case True
    then show ?thesis
      using l0 l1 sc ne
      by (auto simp: StrTrim_buf_def len_def [symmetric] addNullTerminator_bytes_def
            split: option.splits)
  next
    case False
    then obtain a b where fl: "f = Some a" "l = Some b" by auto
    have ab: "a \<le> b" "b < len"
      using inv by (simp_all add: trim_inv_def fl)
    define n where "n = b - a + 1"
    have n: "1 \<le> n" "n \<le> len" "a + n \<le> length buf" "n < length buf"
      using ab lt by (simp_all add: n_def len_def)
    have wn: "(of_nat (b - a) :: size_t) + 1 = of_nat n"
      by (simp add: n_def)
    have un: "unat (of_nat n :: size_t) = n"
      using n(2) unfolding len_def by (rule le_unat_uoi)
    have n0: "(of_nat n :: size_t) \<noteq> 0"
      using n(1) un by (metis not_one_le_zero unat_0)
    have nles: "\<not> len0 < (of_nat n :: size_t)"
      using n(2) un by (simp add: word_less_nat_alt len_def)
    define buf1 where "buf1 = take n (drop a buf) @ drop n buf"
    have cp: "memcpy_s_bytes buf len0 (Some (drop a buf)) (of_nat n) = Inr (0, buf1)"
      using n0 un n nles by (simp add: memcpy_s_bytes_def memcpy_bytes_def buf1_def)
    have nt: "addNullTerminator_bytes buf1 (of_nat n) = Inr (buf1[n := CHR 0x00])"
      using n un by (simp add: addNullTerminator_bytes_def buf1_def)
    show ?thesis
      using l0 l1 by (simp add: StrTrim_buf_def len_def [symmetric] sc fl wn cp nt Let_def)
  qed
qed

text \<open>Reading back what was stored, and storing it again.\<close>

lemma reach_poke:
  assumes "reach arena p = Inr b" and "poke arena p b' = (arena', p')"
  shows "reach arena' p' = Inr b'" and "poke arena' p' b' = (arena', p')"
proof -
  show "reach arena' p' = Inr b'"
  proof (cases p)
    case Null
    with assms show ?thesis by (simp add: reach_def)
  next
    case (Outside old)
    with assms show ?thesis by (auto simp: reach_def poke_def)
  next
    case (Inside q)
    obtain c off where q: "q = (c, off)" by (cases q)
    from assms(1) Inside q have c: "c < length (chunks arena)"
      "off \<le> length (buffer (chunks arena ! c))"
      by (auto simp: reach_def split: if_splits)
    from assms(2) Inside q c show ?thesis
      by (auto simp: reach_def poke_def)
  qed
  show "poke arena' p' b' = (arena', p')"
  proof (cases p)
    case Null
    with assms show ?thesis by (simp add: reach_def)
  next
    case (Outside old)
    with assms show ?thesis by (auto simp: reach_def poke_def)
  next
    case (Inside q)
    obtain c off where q: "q = (c, off)" by (cases q)
    from assms(1) Inside q have c: "c < length (chunks arena)"
      "off \<le> length (buffer (chunks arena ! c))"
      by (auto simp: reach_def split: if_splits)
    from assms(2) Inside q c show ?thesis
      by (auto simp: reach_def poke_def)
  qed
qed

lemma StrTrim_idem:
  assumes "StrTrim arena s = Inr (arena', t)"
  shows "StrTrim arena' t = Inr (arena', t)"
proof (cases "length_S s = 0")
  case True
  with assms show ?thesis by (simp add: StrTrim_def)
next
  case False
  note l0 = this
  obtain buf where buf: "reach arena (data_S s) = Inr buf"
    using assms l0 by (cases "reach arena (data_S s)") (simp_all add: StrTrim_def)
  obtain len2 buf2 where tb: "StrTrim_buf (length_S s) buf = Inr (len2, buf2)"
    using assms l0 buf
    by (cases "StrTrim_buf (length_S s) buf") (auto simp: StrTrim_def)
  obtain d' where pk: "poke arena (data_S s) buf2 = (arena', d')"
    and t: "t = \<lparr>length_S = len2, data_S = d'\<rparr>"
    using assms l0 buf tb by (auto simp: StrTrim_def split: prod.splits)
  have re: "reach arena' d' = Inr buf2" and pk': "poke arena' d' buf2 = (arena', d')"
    using reach_poke [OF buf pk] by simp_all
  have id: "len2 = 0 \<or> StrTrim_buf len2 buf2 = Inr (len2, buf2)"
    using StrTrim_buf_idem [OF tb l0] by simp
  show ?thesis
  proof (cases "len2 = 0")
    case True
    then show ?thesis by (simp add: StrTrim_def t)
  next
    case False
    with id have "StrTrim_buf len2 buf2 = Inr (len2, buf2)" by simp
    with False re pk' show ?thesis by (simp add: StrTrim_def t)
  qed
qed

lemma StrTrim_returns:
  assumes "String_wf arena s"
  shows "\<exists>arena' t. StrTrim arena s = Inr (arena', t)"
proof (cases "length_S s = 0")
  case True
  then show ?thesis by (simp add: StrTrim_def)
next
  case False
  note l0 = this
  then obtain buf where buf: "reach arena (data_S s) = Inr buf"
    and lt: "unat (length_S s) < length buf"
    using assms
    by (cases "reach arena (data_S s)") (auto simp: String_wf_def split: if_splits)
  obtain len2 buf2 where tb: "StrTrim_buf (length_S s) buf = Inr (len2, buf2)"
    using StrTrim_buf_returns [OF l0 lt] by auto
  show ?thesis
    using l0 buf tb by (simp add: StrTrim_def split: prod.splits)
qed

text \<open>
  C9: \<open>StrTrim\<close> is idempotent. Whenever a trim returns, trimming its result again, in
  the memory the first trim left, returns the same String and leaves that memory as it
  is: same length, same pointer, same bytes. A trim returns on every well-formed String.
\<close>

theorem C9_StrTrim_idempotent:
  "(StrTrim arena s = Inr (arena', t) \<longrightarrow> StrTrim arena' t = Inr (arena', t)) \<and>
   (String_wf arena s \<longrightarrow> (\<exists>arena'' t'. StrTrim arena s = Inr (arena'', t')))"
  using StrTrim_idem [of arena s arena' t] StrTrim_returns [of arena s] by blast

lemma StrTrim_example:
  "StrTrim arena64 (S_literal ''  a b  '') =
     Inr (arena64,
          \<lparr>length_S = 3, data_S = Outside (''a b'' @ [CHR 0x00] @ ''b  '' @ [CHR 0x00])\<rparr>)"
  by code_simp

theorem C9_StrTrim_witness:
  "String_wf arena64 (S_literal ''  a b  '') \<and>
   StrTrim arena64 (S_literal ''  a b  '') =
     Inr (arena64,
          \<lparr>length_S = 3, data_S = Outside (''a b'' @ [CHR 0x00] @ ''b  '' @ [CHR 0x00])\<rparr>) \<and>
   StrTrim arena64
       \<lparr>length_S = 3, data_S = Outside (''a b'' @ [CHR 0x00] @ ''b  '' @ [CHR 0x00])\<rparr> =
     Inr (arena64,
          \<lparr>length_S = 3, data_S = Outside (''a b'' @ [CHR 0x00] @ ''b  '' @ [CHR 0x00])\<rparr>)"
proof -
  have wf: "String_wf arena64 (S_literal ''  a b  '')"
    by (simp add: String_wf_def S_literal_def reach_def)
  show ?thesis
    using wf StrTrim_example
      C9_StrTrim_idempotent [of arena64 "S_literal ''  a b  ''" arena64
        "\<lparr>length_S = 3, data_S = Outside (''a b'' @ [CHR 0x00] @ ''b  '' @ [CHR 0x00])\<rparr>",
        THEN conjunct1, THEN mp, OF StrTrim_example]
    by (intro conjI)
qed

section \<open>Arena: the scenarios of the specification\<close>

text \<open>
  C5, as stated: with chunk size 64, three \<open>AllocChars(16)\<close> calls stay in the first chunk
  and the fourth forces a second chunk. On the code the fourth call still fits: the offset
  becomes exactly 64, the test is \<open>offset > cap\<close>, and alignment 1 adds no padding. After
  four calls the chain has the single chunk of capacity 64 and the fourth region starts at
  byte 48 of chunk 0.
\<close>

theorem C5_fourth_call_stays_in_first_chunk:
  "arena_run junk0 64 [(16, 1), (16, 1), (16, 1), (16, 1)] =
     Inr (([64], Some 0, 64), [(0, 0), (0, 16), (0, 32), (0, 48)])"
  by code_simp

text \<open>
  C5, amended: whatever fresh memory holds, four \<open>AllocChars(16)\<close> calls on an arena of
  chunk size 64 are served from the first chunk, which they fill exactly, and the fifth call
  creates the second chunk and is served from its start.
\<close>

theorem C5_fifth_call_creates_second_chunk:
  "(case arena_run junk 64 [(16, 1), (16, 1), (16, 1), (16, 1)] of
      Inr ((caps, cur, off), ps) \<Rightarrow>
        caps = [64] \<and> cur = Some 0 \<and> ps = [(0, 0), (0, 16), (0, 32), (0, 48)]
    | Inl e \<Rightarrow> False) \<and>
   (case arena_run junk 64 [(16, 1), (16, 1), (16, 1), (16, 1), (16, 1)] of
      Inr ((caps, cur, off), ps) \<Rightarrow>
        caps = [64, 64] \<and> cur = Some 1 \<and> ps = [(0, 0), (0, 16), (0, 32), (0, 48), (1, 0)]
    | Inl e \<Rightarrow> False)"
  by (simp add: arena_run_def ArenaCreate_def ArenaNextChunk_def ArenaNextChunk_walk.simps
        Malloc_def sizeof_ArenaChunk_def ArenaAllocAligned_def memset_arena_def arena_shape_def)

text \<open>
  C2 at a failing input: an arena of chunk size 64 whose first chunk is full after four
  \<open>AllocChars(16)\<close> calls. The fifth call creates one chunk of capacity 64 behind the
  tail and makes it current, but the offset is left at \<open>64 + 16 = 80\<close>, the value computed
  for the old chunk, instead of restarting in the new chunk. The sixth call therefore
  does not continue behind the fifth region: \<open>80 + 16 > 64\<close>, and it creates a third chunk.
\<close>

theorem C2_offset_not_reset_in_new_chunk:
  "arena_run junk0 64 [(16, 1), (16, 1), (16, 1), (16, 1), (16, 1)] =
     Inr (([64, 64], Some 1, 80), [(0, 0), (0, 16), (0, 32), (0, 48), (1, 0)]) \<and>
   arena_run junk0 64 [(16, 1), (16, 1), (16, 1), (16, 1), (16, 1), (16, 1)] =
     Inr (([64, 64, 64], Some 2, 96), [(0, 0), (0, 16), (0, 32), (0, 48), (1, 0), (2, 0)])"
  by code_simp

text \<open>
  C1 at a failing input: the offset is 40 after \<open>ArenaAllocChars(40)\<close>, and
  \<open>ArenaAllocAligned(8, 16)\<close> follows. The next multiple of 16 from 40 is 48; the code
  computes \<open>offset + al - offset = 16\<close> and returns byte 16 of the same chunk, inside the
  40 bytes handed out before (which it then zeroes), and sets the offset back to 24.
\<close>

theorem C1_aligned_offset_is_al_not_rounded_up:
  "arena_run junk0 64 [(40, 1), (8, 16)] = Inr (([64], Some 0, 24), [(0, 0), (0, 16)])"
  by code_simp


end
